theory Spec2Isabelle
  imports Complex_Main "HOL-Library.Sublist" "HOL-Library.Multiset"
    "HOL-Library.Char_ord" "HOL-Library.List_Lexorder"
begin

section \<open>Unity asset upgrade scraper: data model\<close>

text \<open>
  The development follows \<^verbatim>\<open>artngame_unity_upgrades_scraper.py\<close>. Python strings are
  character lists (one \<^typ>\<open>char\<close> per code point, code points below 256), Python's
  unbounded integers are \<^typ>\<open>int\<close> or \<^typ>\<open>nat\<close>, and a value produced by
  \<^verbatim>\<open>json.loads\<close> is a \<open>json\<close> tree. A dict is the list of its items in
  iteration order; \<^verbatim>\<open>JNull\<close> is Python's \<^verbatim>\<open>None\<close>. A float carries its
  numeric value (the non-standard tokens NaN and Infinity are outside the model).
\<close>

datatype json =
    JNull
  | JBool bool
  | JInt int
  | JFloat rat
  | JStr string
  | JArr "json list"
  | JObj "(string \<times> json) list"

datatype error = PlaywrightError | JSONDecodeError | TypeError | ValueError | RecursionError

fun is_dict :: "json \<Rightarrow> bool" where
  "is_dict (JObj _) = True"
| "is_dict _ = False"

fun is_list :: "json \<Rightarrow> bool" where
  "is_list (JArr _) = True"
| "is_list _ = False"

text \<open>Python truthiness, as used by \<^verbatim>\<open>or\<close>, \<^verbatim>\<open>if x\<close> and \<^verbatim>\<open>not x\<close>.\<close>

fun truthy :: "json \<Rightarrow> bool" where
  "truthy JNull = False"
| "truthy (JBool b) = b"
| "truthy (JInt i) = (i \<noteq> 0)"
| "truthy (JFloat r) = (r \<noteq> 0)"
| "truthy (JStr s) = (s \<noteq> [])"
| "truthy (JArr xs) = (xs \<noteq> [])"
| "truthy (JObj kvs) = (kvs \<noteq> [])"

definition py_or :: "json \<Rightarrow> json \<Rightarrow> json" where
  "py_or a b = (if truthy a then a else b)"

text \<open>\<^verbatim>\<open>d.get(k)\<close>, \<^verbatim>\<open>k in d\<close> and \<^verbatim>\<open>d[k]\<close> (the last only under the guard \<^verbatim>\<open>k in d\<close>).\<close>

definition dict_get :: "(string \<times> json) list \<Rightarrow> string \<Rightarrow> json" where
  "dict_get kvs k = (case map_of kvs k of None \<Rightarrow> JNull | Some v \<Rightarrow> v)"

definition dict_has :: "(string \<times> json) list \<Rightarrow> string \<Rightarrow> bool" where
  "dict_has kvs k = (map_of kvs k \<noteq> None)"

subsection \<open>Strings\<close>

text \<open>\<^verbatim>\<open>sub in s\<close> on strings: \<open>sub\<close> occurs as a contiguous piece of \<open>s\<close>.\<close>

fun py_in :: "string \<Rightarrow> string \<Rightarrow> bool" where
  "py_in sub [] = (sub = [])"
| "py_in sub (c # cs) = (prefix sub (c # cs) \<or> py_in sub cs)"

text \<open>\<^verbatim>\<open>str.isspace\<close> on one character, for the code points below 256.\<close>

definition is_space :: "char \<Rightarrow> bool" where
  "is_space c = (let n = (of_char c :: nat) in
     (9 \<le> n \<and> n \<le> 13) \<or> (28 \<le> n \<and> n \<le> 32) \<or> n = 133 \<or> n = 160)"

definition strip :: "string \<Rightarrow> string" where
  "strip s = rev (dropWhile is_space (rev (dropWhile is_space s)))"

abbreviation LF :: char where "LF \<equiv> CHR 0x0A"
abbreviation CR :: char where "CR \<equiv> CHR 0x0D"

text \<open>
  \<^verbatim>\<open>f.readlines()\<close> of a file opened in text mode with the default universal newlines:
  a line ends at a line feed, a carriage return or the pair of them, each read back as one
  line feed; the last line may lack its terminator.
\<close>

fun readlines :: "string \<Rightarrow> string list" where
  "readlines [] = []"
| "readlines (c # cs) =
     (if c = LF then [LF] # readlines cs
      else if c = CR then
        (case cs of
           [] \<Rightarrow> [[LF]]
         | d # ds \<Rightarrow> if d = LF then [LF] # readlines ds else [LF] # readlines cs)
      else (case readlines cs of [] \<Rightarrow> [[c]] | l # ls \<Rightarrow> (c # l) # ls))"

text \<open>\<^verbatim>\<open>s.split(sep, 1)\<close> and \<^verbatim>\<open>s.split(sep)\<close> for a one-character separator.\<close>

definition split1 :: "char \<Rightarrow> string \<Rightarrow> string list" where
  "split1 sep s =
     (if sep \<in> set s then [takeWhile (\<lambda>c. c \<noteq> sep) s, tl (dropWhile (\<lambda>c. c \<noteq> sep) s)]
      else [s])"

fun split_on :: "char \<Rightarrow> string \<Rightarrow> string list" where
  "split_on sep [] = [[]]"
| "split_on sep (c # cs) =
     (if c = sep then [] # split_on sep cs
      else (case split_on sep cs of [] \<Rightarrow> [[c]] | p # ps \<Rightarrow> (c # p) # ps))"

text \<open>\<^verbatim>\<open>str(n)\<close> for a page number.\<close>

fun str_nat :: "nat \<Rightarrow> string" where
  "str_nat n = (if n < 10 then [char_of (48 + n)] else str_nat (n div 10) @ [char_of (48 + n mod 10)])"

subsection \<open>Files\<close>

text \<open>
  The four files the program reads and writes. \<open>None\<close> is a file that does not exist
  (\<^verbatim>\<open>os.path.exists\<close> is false). The text files hold their characters; the CSV file holds
  the sequence of rows handed to \<^verbatim>\<open>csv.writer.writerow\<close>, whose quoting belongs to the
  standard library. A cell is the Python value that was put in the row.
\<close>

record files =
  output_txt :: "string option"
  output_csv :: "json list list option"
  progress_file :: "string option"
  publishers_txt :: "string option"

definition contents :: "'a list option \<Rightarrow> 'a list" where
  "contents f = (case f of None \<Rightarrow> [] | Some c \<Rightarrow> c)"

text \<open>Mode \<^verbatim>\<open>"a"\<close>: the file is created when missing, and the write lands at its end.\<close>

definition append_to :: "'a list option \<Rightarrow> 'a list \<Rightarrow> 'a list option" where
  "append_to f xs = Some (contents f @ xs)"

definition save_txt_line :: "string \<Rightarrow> files \<Rightarrow> files" where
  "save_txt_line text fs = fs\<lparr>output_txt := append_to (output_txt fs) (text @ [LF])\<rparr>"

definition save_csv_row :: "json list \<Rightarrow> files \<Rightarrow> files" where
  "save_csv_row row fs = fs\<lparr>output_csv := append_to (output_csv fs) [row]\<rparr>"

definition mark_processed :: "string \<Rightarrow> files \<Rightarrow> files" where
  "mark_processed link fs = fs\<lparr>progress_file := append_to (progress_file fs) (link @ [LF])\<rparr>"

definition load_processed :: "files \<Rightarrow> string set" where
  "load_processed fs =
     (case progress_file fs of
        None \<Rightarrow> {}
      | Some c \<Rightarrow> set (map strip (readlines c)))"


section \<open>Configuration and the publisher list\<close>

text \<open>
  \<^verbatim>\<open>DEFAULT_PUBLISHER\<close>, and the loop at the start of \<^verbatim>\<open>main\<close> that reads
  \<^verbatim>\<open>publishers.txt\<close>: a line counts when it is not blank and contains a comma; it is
  stripped, split at its first comma, and both halves are stripped. The tuple assignment
  \<^verbatim>\<open>name, url = ...\<close> raises \<^verbatim>\<open>ValueError\<close> unless the split has two parts.
\<close>

definition DEFAULT_PUBLISHER :: "string \<times> string" where
  "DEFAULT_PUBLISHER = (''ARTnGAME'', ''https://assetstore.unity.com/publishers/6503?pageSize=96'')"

definition BATCH_SIZE :: nat where
  "BATCH_SIZE = 10"

definition PAGE_SIZE :: nat where
  "PAGE_SIZE = 96"

fun parse_publishers :: "string list \<Rightarrow> (string \<times> string) list \<Rightarrow> error + (string \<times> string) list" where
  "parse_publishers [] publishers = Inr publishers"
| "parse_publishers (line # lines) publishers =
     (if strip line \<noteq> [] \<and> CHR '','' \<in> set line then
        (case split1 (CHR '','') (strip line) of
           [name, url] \<Rightarrow> parse_publishers lines (publishers @ [(strip name, strip url)])
         | _ \<Rightarrow> Inl ValueError)
      else parse_publishers lines publishers)"

definition load_publishers :: "files \<Rightarrow> error + (string \<times> string) list" where
  "load_publishers fs =
     (case (case publishers_txt fs of
              None \<Rightarrow> Inr []
            | Some c \<Rightarrow> parse_publishers (readlines c) []) of
        Inl e \<Rightarrow> Inl e
      | Inr publishers \<Rightarrow> Inr (if publishers = [] then [DEFAULT_PUBLISHER] else publishers))"

section \<open>Extraction from parsed JSON\<close>

text \<open>
  A price pair is the tuple \<^verbatim>\<open>(orig, final)\<close> of two JSON values; an upgrade is the
  tuple of a name (a JSON value) and a URL string. \<open>py_str pystr v\<close> is what an f-string
  prints for \<open>v\<close>: a string prints as itself, and \<open>pystr\<close> stands for the built-in
  \<^verbatim>\<open>str\<close> on every other value.
\<close>

type_synonym price_pair = "json \<times> json"
type_synonym upgrade = "json \<times> string"

definition py_str :: "(json \<Rightarrow> string) \<Rightarrow> json \<Rightarrow> string" where
  "py_str pystr v = (case v of JStr s \<Rightarrow> s | _ \<Rightarrow> pystr v)"

fun items_of :: "json \<Rightarrow> (string \<times> json) list" where
  "items_of (JObj kvs) = kvs"
| "items_of _ = []"

fun elems_of :: "json \<Rightarrow> json list" where
  "elems_of (JArr xs) = xs"
| "elems_of _ = []"

text \<open>
  Each of the three extractors calls itself once per level of nesting, and a Python call
  needs a stack frame: a call made when none is left raises \<^verbatim>\<open>RecursionError\<close>. The
  first argument \<open>frames\<close> is the number of frames left for the call. An extractor
  returns the list it was given with everything appended up to the moment it ends, and the
  exception if it ended by one: the source appends in place, so what was appended before an
  exception stays in the list. The other operations of an extractor (\<^verbatim>\<open>isinstance\<close>,
  \<^verbatim>\<open>dict.get\<close>, \<^verbatim>\<open>list.append\<close>, and \<^verbatim>\<open>str\<close> in an f-string) are taken to
  return on every value that \<^verbatim>\<open>json.loads\<close> produces.
\<close>

text \<open>
  \<^verbatim>\<open>extract_offer_rating(data, found_prices)\<close>. The three functions are the call itself,
  its loop over \<^verbatim>\<open>data.items()\<close> and its loop over a list.
\<close>

definition offer_key :: "string \<Rightarrow> bool" where
  "offer_key k = (k = ''offerRating'')"

fun extract_offer_rating :: "nat \<Rightarrow> json \<Rightarrow> price_pair list \<Rightarrow> price_pair list \<times> error option"
and offer_rating_items ::
  "nat \<Rightarrow> (string \<times> json) list \<Rightarrow> price_pair list \<Rightarrow> price_pair list \<times> error option"
and offer_rating_elems :: "nat \<Rightarrow> json list \<Rightarrow> price_pair list \<Rightarrow> price_pair list \<times> error option" where
  "extract_offer_rating 0 data found_prices = (found_prices, Some RecursionError)"
| "extract_offer_rating (Suc frames) (JObj kvs) found_prices =
     offer_rating_items frames kvs found_prices"
| "extract_offer_rating (Suc frames) (JArr xs) found_prices =
     offer_rating_elems frames xs found_prices"
| "extract_offer_rating (Suc frames) _ found_prices = (found_prices, None)"
| "offer_rating_items frames [] found_prices = (found_prices, None)"
| "offer_rating_items frames ((k, v) # kvs) found_prices =
     (if offer_key k \<and> is_dict v then
        (let orig = dict_get (items_of v) ''originalPrice'';
             final = dict_get (items_of v) ''finalPrice''
         in offer_rating_items frames kvs
              (if truthy (py_or orig final) then found_prices @ [(orig, final)] else found_prices))
      else
        (case extract_offer_rating frames v found_prices of
           (found_prices', Some e) \<Rightarrow> (found_prices', Some e)
         | (found_prices', None) \<Rightarrow> offer_rating_items frames kvs found_prices'))"
| "offer_rating_elems frames [] found_prices = (found_prices, None)"
| "offer_rating_elems frames (item # xs) found_prices =
     (case extract_offer_rating frames item found_prices of
        (found_prices', Some e) \<Rightarrow> (found_prices', Some e)
      | (found_prices', None) \<Rightarrow> offer_rating_elems frames xs found_prices')"

text \<open>
  \<^verbatim>\<open>extract_upgrade_from(data, upgrades)\<close>. \<open>upgrade_of\<close> is the tuple appended for
  one dict; \<open>upgrade_entries\<close> is the loop \<^verbatim>\<open>for upg in v\<close>.
\<close>

definition upgrade_of :: "(json \<Rightarrow> string) \<Rightarrow> (string \<times> json) list \<Rightarrow> upgrade" where
  "upgrade_of pystr upg =
     (let name = py_or (py_or (dict_get upg ''name'') (dict_get upg ''title'')) (JStr ''Unknown'');
          url = dict_get upg ''url''
      in (name, if truthy url then ''https://assetstore.unity.com'' @ py_str pystr url else []))"

definition upgrade_key :: "string \<Rightarrow> bool" where
  "upgrade_key k = (k = ''upgradeFrom'' \<or> k = ''upgradableFrom'')"

fun upgrade_entries :: "(json \<Rightarrow> string) \<Rightarrow> json list \<Rightarrow> upgrade list \<Rightarrow> upgrade list" where
  "upgrade_entries pystr [] upgrades = upgrades"
| "upgrade_entries pystr (upg # v) upgrades =
     upgrade_entries pystr v
       (if is_dict upg then upgrades @ [upgrade_of pystr (items_of upg)] else upgrades)"

fun extract_upgrade_from ::
  "(json \<Rightarrow> string) \<Rightarrow> nat \<Rightarrow> json \<Rightarrow> upgrade list \<Rightarrow> upgrade list \<times> error option"
and upgrade_from_items ::
  "(json \<Rightarrow> string) \<Rightarrow> nat \<Rightarrow> (string \<times> json) list \<Rightarrow> upgrade list \<Rightarrow> upgrade list \<times> error option"
and upgrade_from_elems ::
  "(json \<Rightarrow> string) \<Rightarrow> nat \<Rightarrow> json list \<Rightarrow> upgrade list \<Rightarrow> upgrade list \<times> error option" where
  "extract_upgrade_from pystr 0 data upgrades = (upgrades, Some RecursionError)"
| "extract_upgrade_from pystr (Suc frames) (JObj kvs) upgrades =
     upgrade_from_items pystr frames kvs upgrades"
| "extract_upgrade_from pystr (Suc frames) (JArr xs) upgrades =
     upgrade_from_elems pystr frames xs upgrades"
| "extract_upgrade_from pystr (Suc frames) _ upgrades = (upgrades, None)"
| "upgrade_from_items pystr frames [] upgrades = (upgrades, None)"
| "upgrade_from_items pystr frames ((k, v) # kvs) upgrades =
     (if upgrade_key k then
        upgrade_from_items pystr frames kvs
          (if is_list v then upgrade_entries pystr (elems_of v) upgrades
           else if is_dict v then upgrades @ [upgrade_of pystr (items_of v)]
           else upgrades)
      else
        (case extract_upgrade_from pystr frames v upgrades of
           (upgrades', Some e) \<Rightarrow> (upgrades', Some e)
         | (upgrades', None) \<Rightarrow> upgrade_from_items pystr frames kvs upgrades'))"
| "upgrade_from_elems pystr frames [] upgrades = (upgrades, None)"
| "upgrade_from_elems pystr frames (item # xs) upgrades =
     (case extract_upgrade_from pystr frames item upgrades of
        (upgrades', Some e) \<Rightarrow> (upgrades', Some e)
      | (upgrades', None) \<Rightarrow> upgrade_from_elems pystr frames xs upgrades')"

text \<open>
  \<^verbatim>\<open>extract_asset_name(data, names)\<close>. \<open>result_names\<close> is the loop
  \<^verbatim>\<open>for result in v\<close>.
\<close>

definition results_key :: "string \<Rightarrow> bool" where
  "results_key k = (k = ''results'')"

definition product_key :: "string \<Rightarrow> bool" where
  "product_key k = (k = ''product'' \<or> k = ''item'')"

fun result_names :: "json list \<Rightarrow> json list \<Rightarrow> json list" where
  "result_names [] names = names"
| "result_names (result # v) names =
     result_names v
       (if is_dict result \<and> dict_has (items_of result) ''name''
        then names @ [dict_get (items_of result) ''name''] else names)"

fun extract_asset_name :: "nat \<Rightarrow> json \<Rightarrow> json list \<Rightarrow> json list \<times> error option"
and asset_name_items :: "nat \<Rightarrow> (string \<times> json) list \<Rightarrow> json list \<Rightarrow> json list \<times> error option"
and asset_name_elems :: "nat \<Rightarrow> json list \<Rightarrow> json list \<Rightarrow> json list \<times> error option" where
  "extract_asset_name 0 data names = (names, Some RecursionError)"
| "extract_asset_name (Suc frames) (JObj kvs) names = asset_name_items frames kvs names"
| "extract_asset_name (Suc frames) (JArr xs) names = asset_name_elems frames xs names"
| "extract_asset_name (Suc frames) _ names = (names, None)"
| "asset_name_items frames [] names = (names, None)"
| "asset_name_items frames ((k, v) # kvs) names =
     (if results_key k \<and> is_list v then
        asset_name_items frames kvs (result_names (elems_of v) names)
      else if product_key k \<and> is_dict v then
        asset_name_items frames kvs
          (if dict_has (items_of v) ''name'' then names @ [dict_get (items_of v) ''name''] else names)
      else
        (case extract_asset_name frames v names of
           (names', Some e) \<Rightarrow> (names', Some e)
         | (names', None) \<Rightarrow> asset_name_items frames kvs names'))"
| "asset_name_elems frames [] names = (names, None)"
| "asset_name_elems frames (item # xs) names =
     (case extract_asset_name frames item names of
        (names', Some e) \<Rightarrow> (names', Some e)
      | (names', None) \<Rightarrow> asset_name_elems frames xs names')"

section \<open>The response handler\<close>

text \<open>
  \<open>facts\<close> are the three lists \<^verbatim>\<open>process_asset\<close> creates for one asset. A
  \<open>response\<close> is what the handler reads from a network response: the result of
  \<^verbatim>\<open>all_headers()\<close> and of \<^verbatim>\<open>json()\<close>, either of which may raise.
  \<open>handler_body\<close> is the body of the \<^verbatim>\<open>try\<close>: it returns the lists as they are
  when it ends, and the exception if one was raised. \<open>handle_response\<close> is the handler:
  \<^verbatim>\<open>except Exception: pass\<close> drops the exception and keeps the lists. \<open>dumps\<close> stands
  for \<^verbatim>\<open>json.dumps\<close>, which may raise as well, and \<open>frames\<close> is the number of stack
  frames left where the handler calls the extractors.
\<close>

record facts =
  found_prices :: "price_pair list"
  upgrade_from :: "upgrade list"
  asset_names :: "json list"

record response =
  all_headers :: "error + (string \<times> string) list"
  json_body :: "error + json"

definition wanted_keys :: "string list" where
  "wanted_keys = [''offerRating'', ''upgradeFrom'', ''upgradableFrom'', ''results'', ''product'']"

definition content_type :: "(string \<times> string) list \<Rightarrow> string" where
  "content_type headers = (case map_of headers ''content-type'' of None \<Rightarrow> [] | Some v \<Rightarrow> v)"

definition handler_body ::
  "(json \<Rightarrow> string) \<Rightarrow> (json \<Rightarrow> error + string) \<Rightarrow> nat \<Rightarrow> response \<Rightarrow> facts
     \<Rightarrow> facts \<times> error option" where
  "handler_body pystr dumps frames response fa =
     (case all_headers response of
        Inl e \<Rightarrow> (fa, Some e)
      | Inr headers \<Rightarrow>
          if py_in ''application/json'' (content_type headers) then
            (case json_body response of
               Inl e \<Rightarrow> (fa, Some e)
             | Inr data \<Rightarrow>
                 (case dumps data of
                    Inl e \<Rightarrow> (fa, Some e)
                  | Inr text \<Rightarrow>
                      if list_ex (\<lambda>k. py_in k text) wanted_keys then
                        (case extract_offer_rating frames data (found_prices fa) of
                           (prices, Some e) \<Rightarrow> (fa\<lparr>found_prices := prices\<rparr>, Some e)
                         | (prices, None) \<Rightarrow>
                             (case extract_upgrade_from pystr frames data (upgrade_from fa) of
                                (upgrades, Some e) \<Rightarrow>
                                  (fa\<lparr>found_prices := prices, upgrade_from := upgrades\<rparr>, Some e)
                              | (upgrades, None) \<Rightarrow>
                                  (case extract_asset_name frames data (asset_names fa) of
                                     (names, e) \<Rightarrow>
                                       (\<lparr>found_prices = prices, upgrade_from = upgrades,
                                         asset_names = names\<rparr>, e))))
                      else (fa, None)))
          else (fa, None))"

definition handle_response ::
  "(json \<Rightarrow> string) \<Rightarrow> (json \<Rightarrow> error + string) \<Rightarrow> nat \<Rightarrow> response \<Rightarrow> facts \<Rightarrow> facts" where
  "handle_response pystr dumps frames response fa =
     fst (handler_body pystr dumps frames response fa)"

section \<open>The paginated link collector\<close>

text \<open>
  \<^verbatim>\<open>collect_all_assets_by_url(page, base_url, page_size)\<close>. \<open>goto url\<close> stands for
  the navigation to \<open>url\<close> followed by the selector query: the \<^verbatim>\<open>href\<close> attribute of
  every matched element (\<open>None\<close> when the attribute is missing), or the exception of the
  navigation. \<open>page_links_of\<close> is the loop that fills \<^verbatim>\<open>page_links\<close>. The
  \<^verbatim>\<open>while True\<close> loop may run forever, so \<open>collect_loop\<close> is a partial function:
  \<open>None\<close> is a run that never returns. \<open>visited\<close> records the URLs navigated to, in
  order; the source has no such variable.
\<close>

fun page_links_of :: "string option list \<Rightarrow> string set \<Rightarrow> string set" where
  "page_links_of [] page_links = page_links"
| "page_links_of (href # asset_items) page_links =
     page_links_of asset_items
       (case href of
          None \<Rightarrow> page_links
        | Some h \<Rightarrow>
            if h \<noteq> [] \<and> py_in ''/packages/'' h
            then insert (''https://assetstore.unity.com'' @ h) page_links
            else page_links)"

definition page_url :: "string \<Rightarrow> nat \<Rightarrow> string" where
  "page_url base_url page_num = base_url @ ''&page='' @ str_nat page_num"

partial_function (option) collect_loop ::
  "(string \<Rightarrow> error + string option list) \<Rightarrow> string \<Rightarrow> nat \<Rightarrow> nat \<Rightarrow> string set
     \<Rightarrow> string list \<Rightarrow> (string list \<times> (error + string set)) option" where
  "collect_loop goto base_url page_size page_num all_links visited =
     (let url = page_url base_url page_num in
      case goto url of
        Inl e \<Rightarrow> Some (visited @ [url], Inl e)
      | Inr asset_items \<Rightarrow>
          let page_links = page_links_of asset_items {};
              num_assets = card page_links
          in if num_assets = 0 then Some (visited @ [url], Inr all_links)
             else if num_assets < page_size
               then Some (visited @ [url], Inr (all_links \<union> page_links))
             else collect_loop goto base_url page_size (page_num + 1)
                    (all_links \<union> page_links) (visited @ [url]))"

definition collect_all_assets_by_url ::
  "(string \<Rightarrow> error + string option list) \<Rightarrow> string \<Rightarrow> nat
     \<Rightarrow> (string list \<times> (error + string list)) option" where
  "collect_all_assets_by_url goto base_url page_size =
     (case collect_loop goto base_url page_size 1 {} [] of
        None \<Rightarrow> None
      | Some (visited, Inl e) \<Rightarrow> Some (visited, Inl e)
      | Some (visited, Inr all_links) \<Rightarrow> Some (visited, Inr (sorted_list_of_set all_links)))"

section \<open>Writing the rows of one asset\<close>


definition HEADER :: "json list" where
  "HEADER = [JStr ''Asset Name'', JStr ''Original Price'', JStr ''Final Price'',
             JStr ''Upgrade From'', JStr ''Upgrade URL'', JStr ''Asset URL'',
             JStr ''Publisher Name'', JStr ''Publisher Page'']"

definition wrap_hyperlink :: "(json \<Rightarrow> string) \<Rightarrow> string \<Rightarrow> json \<Rightarrow> string" where
  \<open>wrap_hyperlink pystr url label =
     ''=HYPERLINK("'' @ url @ ''","'' @ py_str pystr (py_or label (JStr url)) @ ''")''\<close>

text \<open>\<^verbatim>\<open>batched(iterable, n)\<close>, as the list of the batches it yields.\<close>

function batched :: "'a list \<Rightarrow> nat \<Rightarrow> 'a list list" where
  "batched iterable n =
     (if n = 0 \<or> iterable = [] then []
      else take n iterable # batched (drop n iterable) n)"
  by pat_completeness auto
termination
  by (relation "measure (\<lambda>(iterable, n). length iterable)") auto

declare batched.simps [simp del]

text \<open>
  \<^verbatim>\<open>list(set(found_prices))\<close>. A tuple is hashable when both components are; a list or
  a dict is not, and \<^verbatim>\<open>set\<close> then raises \<^verbatim>\<open>TypeError\<close>. Two hashable JSON values
  are equal as Python values when they are the same number (booleans count as 0 and 1) or
  otherwise the same value. \<open>set_add\<close> adds one tuple to a set kept as a list of
  pairwise unequal tuples; the first of several equal tuples stays. The order in which a
  set is iterated depends on hashes, so it is a parameter: \<open>set_order\<close> rearranges the
  members.
\<close>

fun hashable :: "json \<Rightarrow> bool" where
  "hashable (JArr _) = False"
| "hashable (JObj _) = False"
| "hashable _ = True"

fun num_val :: "json \<Rightarrow> rat option" where
  "num_val (JBool b) = Some (if b then 1 else 0)"
| "num_val (JInt i) = Some (of_int i)"
| "num_val (JFloat r) = Some r"
| "num_val _ = None"

definition py_eq :: "json \<Rightarrow> json \<Rightarrow> bool" where
  "py_eq a b =
     (case (num_val a, num_val b) of
        (Some x, Some y) \<Rightarrow> x = y
      | (None, None) \<Rightarrow> a = b
      | _ \<Rightarrow> False)"

definition pair_eq :: "price_pair \<Rightarrow> price_pair \<Rightarrow> bool" where
  "pair_eq p q = (py_eq (fst p) (fst q) \<and> py_eq (snd p) (snd q))"

definition set_add :: "price_pair list \<Rightarrow> price_pair \<Rightarrow> price_pair list" where
  "set_add s p = (if list_ex (pair_eq p) s then s else s @ [p])"

definition py_set :: "price_pair list \<Rightarrow> error + price_pair list" where
  "py_set ps =
     (if list_all (\<lambda>p. hashable (fst p) \<and> hashable (snd p)) ps
      then Inr (foldl set_add [] ps) else Inl TypeError)"

definition unique_prices_of ::
  "(price_pair list \<Rightarrow> price_pair list) \<Rightarrow> price_pair list \<Rightarrow> error + price_pair list" where
  "unique_prices_of set_order found =
     (if found \<noteq> [] then
        (case py_set found of Inl e \<Rightarrow> Inl e | Inr s \<Rightarrow> Inr (set_order s))
      else Inr [])"

definition na :: "json \<Rightarrow> json" where
  "na v = py_or v (JStr ''N/A'')"

text \<open>
  The local variables of the loop over \<^verbatim>\<open>results\<close> that the rows of one asset are built
  from. The line and row builders below are the f-strings and row lists of the three
  branches of that loop; the two \<open>write\<close> functions are its two inner loops.
\<close>

record asset_ctx =
  c_pystr :: "json \<Rightarrow> string"
  c_asset_name :: json
  c_link :: string
  c_asset_url_hl :: string
  c_publisher_name :: string
  c_publisher_url :: string

definition upgrade_line :: "asset_ctx \<Rightarrow> json \<Rightarrow> json \<Rightarrow> upgrade \<Rightarrow> string" where
  "upgrade_line c orig final upg =
     py_str (c_pystr c) (c_asset_name c) @ '' | Original: '' @ py_str (c_pystr c) (na orig)
       @ '' | Final: '' @ py_str (c_pystr c) (na final)
       @ '' | Upgrade from: '' @ py_str (c_pystr c) (fst upg) @ '' ('' @ snd upg @ '') | '' @ c_link c"

definition upgrade_row :: "asset_ctx \<Rightarrow> json \<Rightarrow> json \<Rightarrow> upgrade \<Rightarrow> json list" where
  "upgrade_row c orig final upg =
     [c_asset_name c, na orig, na final, fst upg,
      JStr (if snd upg \<noteq> [] then wrap_hyperlink (c_pystr c) (snd upg) (fst upg) else []),
      JStr (c_asset_url_hl c), JStr (c_publisher_name c),
      JStr (wrap_hyperlink (c_pystr c) (c_publisher_url c) (JStr (c_publisher_name c)))]"

definition price_line :: "asset_ctx \<Rightarrow> json \<Rightarrow> json \<Rightarrow> string" where
  "price_line c orig final =
     py_str (c_pystr c) (c_asset_name c) @ '' | Original: '' @ py_str (c_pystr c) (na orig)
       @ '' | Final: '' @ py_str (c_pystr c) (na final) @ '' | '' @ c_link c"

definition price_row :: "asset_ctx \<Rightarrow> json \<Rightarrow> json \<Rightarrow> json list" where
  "price_row c orig final =
     [c_asset_name c, na orig, na final, JStr [], JStr [],
      JStr (c_asset_url_hl c), JStr (c_publisher_name c),
      JStr (wrap_hyperlink (c_pystr c) (c_publisher_url c) (JStr (c_publisher_name c)))]"

definition no_offer_line :: "asset_ctx \<Rightarrow> string" where
  "no_offer_line c = py_str (c_pystr c) (c_asset_name c) @ '' | No offerRating found | '' @ c_link c"

definition no_offer_row :: "asset_ctx \<Rightarrow> json list" where
  "no_offer_row c =
     [c_asset_name c, JStr [], JStr [], JStr [], JStr [],
      JStr (c_asset_url_hl c), JStr (c_publisher_name c),
      JStr (wrap_hyperlink (c_pystr c) (c_publisher_url c) (JStr (c_publisher_name c)))]"

fun write_upgrades :: "asset_ctx \<Rightarrow> json \<Rightarrow> json \<Rightarrow> upgrade list \<Rightarrow> files \<Rightarrow> files" where
  "write_upgrades c orig final [] fs = fs"
| "write_upgrades c orig final (upg # rest) fs =
     write_upgrades c orig final rest
       (save_csv_row (upgrade_row c orig final upg) (save_txt_line (upgrade_line c orig final upg) fs))"

fun write_prices :: "asset_ctx \<Rightarrow> upgrade list \<Rightarrow> price_pair list \<Rightarrow> files \<Rightarrow> files" where
  "write_prices c upgrades [] fs = fs"
| "write_prices c upgrades ((orig, final) # rest) fs =
     write_prices c upgrades rest
       (if upgrades \<noteq> [] then write_upgrades c orig final upgrades fs
        else save_csv_row (price_row c orig final) (save_txt_line (price_line c orig final) fs))"

text \<open>
  \<^verbatim>\<open>asset_names[0] if asset_names else link.split("/")[-1]\<close>, and the body of the loop
  over \<^verbatim>\<open>results\<close> for one asset, ending with \<^verbatim>\<open>mark_processed(link)\<close>.
\<close>

definition asset_name_of :: "string \<Rightarrow> json list \<Rightarrow> json" where
  "asset_name_of link names =
     (if names \<noteq> [] then hd names else JStr (last (split_on (CHR ''/'') link)))"

definition make_ctx :: "(json \<Rightarrow> string) \<Rightarrow> string \<Rightarrow> string \<Rightarrow> string \<Rightarrow> facts \<Rightarrow> asset_ctx" where
  "make_ctx pystr pub_name pub_url link fa =
     \<lparr>c_pystr = pystr, c_asset_name = asset_name_of link (asset_names fa), c_link = link,
      c_asset_url_hl = wrap_hyperlink pystr link (asset_name_of link (asset_names fa)),
      c_publisher_name = pub_name, c_publisher_url = pub_url\<rparr>"

definition write_asset ::
  "(json \<Rightarrow> string) \<Rightarrow> (price_pair list \<Rightarrow> price_pair list) \<Rightarrow> string \<Rightarrow> string
     \<Rightarrow> string \<times> facts \<Rightarrow> files \<Rightarrow> files \<times> error option" where
  "write_asset pystr set_order pub_name pub_url result fs =
     (let link = fst result; fa = snd result;
          c = make_ctx pystr pub_name pub_url link fa
      in case unique_prices_of set_order (found_prices fa) of
           Inl e \<Rightarrow> (fs, Some e)
         | Inr unique_prices \<Rightarrow>
             (mark_processed link
                (if unique_prices \<noteq> [] then write_prices c (upgrade_from fa) unique_prices fs
                 else save_csv_row (no_offer_row c) (save_txt_line (no_offer_line c) fs)),
              None))"

section \<open>The main routine\<close>

text \<open>
  What the run meets outside the program: \<open>env_goto\<close> is the outcome of the navigation to
  a publisher page (\<open>None\<close> when it succeeds), \<open>env_listing\<close> is \<open>goto\<close> of the
  collector, \<open>env_visit link\<close> is the outcome of the navigation to an asset page together
  with the responses its handler receives before the rows are written, in the order in
  which the handler ends on them. \<open>env_pystr\<close>, \<open>env_dumps\<close> and \<open>env_set_order\<close> are
  the library functions \<^verbatim>\<open>str\<close>, \<^verbatim>\<open>json.dumps\<close> and the iteration order of a set,
  and \<open>env_frames\<close> is the number of stack frames left where a handler calls the
  extractors. Browser start, login, sleeps and console output are left out: no property below
  depends on them. An exception that leaves \<^verbatim>\<open>main\<close> ends the run with the files as they
  are at that moment.
\<close>

record env =
  env_pystr :: "json \<Rightarrow> string"
  env_dumps :: "json \<Rightarrow> error + string"
  env_frames :: nat
  env_set_order :: "price_pair list \<Rightarrow> price_pair list"
  env_goto :: "string \<Rightarrow> error option"
  env_listing :: "string \<Rightarrow> error + string option list"
  env_visit :: "string \<Rightarrow> error + response list"

definition no_facts :: facts where
  "no_facts = \<lparr>found_prices = [], upgrade_from = [], asset_names = []\<rparr>"

text \<open>
  One batch: the pages are opened and awaited (\<open>process_assets\<close>), each handler has
  collected the facts of its asset, and the results are written in order (\<open>write_results\<close>).
\<close>

fun process_assets :: "env \<Rightarrow> string list \<Rightarrow> error + (string \<times> facts) list" where
  "process_assets env [] = Inr []"
| "process_assets env (link # batch_links) =
     (case env_visit env link of
        Inl e \<Rightarrow> Inl e
      | Inr responses \<Rightarrow>
          (case process_assets env batch_links of
             Inl e \<Rightarrow> Inl e
           | Inr results \<Rightarrow>
               Inr ((link, foldl (\<lambda>fa r. handle_response (env_pystr env) (env_dumps env)
                                           (env_frames env) r fa) no_facts responses)
                    # results)))"

fun write_results ::
  "env \<Rightarrow> string \<Rightarrow> string \<Rightarrow> (string \<times> facts) list \<Rightarrow> files \<Rightarrow> files \<times> error option" where
  "write_results env pub_name pub_url [] fs = (fs, None)"
| "write_results env pub_name pub_url (result # results) fs =
     (case write_asset (env_pystr env) (env_set_order env) pub_name pub_url result fs of
        (fs', Some e) \<Rightarrow> (fs', Some e)
      | (fs', None) \<Rightarrow> write_results env pub_name pub_url results fs')"

fun run_batches ::
  "env \<Rightarrow> string set \<Rightarrow> string \<Rightarrow> string \<Rightarrow> string list list \<Rightarrow> files \<Rightarrow> files \<times> error option" where
  "run_batches env processed pub_name pub_url [] fs = (fs, None)"
| "run_batches env processed pub_name pub_url (batch # batches) fs =
     (let batch_links = filter (\<lambda>l. l \<notin> processed) batch in
      if batch_links = [] then run_batches env processed pub_name pub_url batches fs
      else
        (case process_assets env batch_links of
           Inl e \<Rightarrow> (fs, Some e)
         | Inr results \<Rightarrow>
             (case write_results env pub_name pub_url results fs of
                (fs', Some e) \<Rightarrow> (fs', Some e)
              | (fs', None) \<Rightarrow> run_batches env processed pub_name pub_url batches fs')))"

text \<open>The body of the loop over the publishers, and the loop.\<close>

definition run_publisher ::
  "env \<Rightarrow> string set \<Rightarrow> string \<times> string \<Rightarrow> files \<Rightarrow> (files \<times> error option) option" where
  "run_publisher env processed publisher fs =
     (case env_goto env (snd publisher) of
        Some e \<Rightarrow> Some (fs, Some e)
      | None \<Rightarrow>
          (case collect_all_assets_by_url (env_listing env) (snd publisher) PAGE_SIZE of
             None \<Rightarrow> None
           | Some (visited, Inl e) \<Rightarrow> Some (fs, Some e)
           | Some (visited, Inr all_assets) \<Rightarrow>
               Some (run_batches env processed (fst publisher) (snd publisher)
                       (batched all_assets BATCH_SIZE) fs)))"

fun run_publishers ::
  "env \<Rightarrow> string set \<Rightarrow> (string \<times> string) list \<Rightarrow> files \<Rightarrow> (files \<times> error option) option" where
  "run_publishers env processed [] fs = Some (fs, None)"
| "run_publishers env processed (publisher # publishers) fs =
     (case run_publisher env processed publisher fs of
        None \<Rightarrow> None
      | Some (fs', Some e) \<Rightarrow> Some (fs', Some e)
      | Some (fs', None) \<Rightarrow> run_publishers env processed publishers fs')"

text \<open>
  \<^verbatim>\<open>main\<close>: the publisher list, the header row when the CSV file does not exist, the
  processed set read once, then the publishers.
\<close>

definition main :: "env \<Rightarrow> files \<Rightarrow> (files \<times> error option) option" where
  "main env fs =
     (case load_publishers fs of
        Inl e \<Rightarrow> Some (fs, Some e)
      | Inr publishers \<Rightarrow>
          (let fs1 = (if output_csv fs = None then save_csv_row HEADER fs else fs);
               processed = load_processed fs1
           in run_publishers env processed publishers fs1))"

section \<open>Notions used to state the properties\<close>

text \<open>
  None of the definitions of this section is part of the program. They name what the
  properties below talk about.
\<close>

subsection \<open>Lines of the publisher file\<close>

text \<open>
  A line qualifies when it is not blank and has a comma. \<open>name_url_of line p\<close>: the pair
  \<open>p\<close> is the stripped line cut at its first comma, each half stripped.
\<close>

definition qualifying :: "string \<Rightarrow> bool" where
  "qualifying line = (strip line \<noteq> [] \<and> CHR '','' \<in> set line)"

definition name_url_of :: "string \<Rightarrow> string \<times> string \<Rightarrow> bool" where
  "name_url_of line p =
     (\<exists>a b. strip line = a @ CHR '','' # b \<and> CHR '','' \<notin> set a \<and> p = (strip a, strip b))"

subsection \<open>Occurrences of a key in a JSON value\<close>

text \<open>
  A path is a list of dict keys and list indices. \<open>descend stop data p\<close> is the value
  found by following \<open>p\<close> from \<open>data\<close>, provided no dict item \<open>(k, v)\<close> passed on the
  way satisfies \<open>stop k v\<close>. The three \<open>stop\<close> predicates are the items each extractor
  handles itself instead of descending into them; \<open>never_stop\<close> follows every path.
\<close>

datatype step = Key string | Idx nat

fun descend :: "(string \<Rightarrow> json \<Rightarrow> bool) \<Rightarrow> json \<Rightarrow> step list \<Rightarrow> json option" where
  "descend stop v [] = Some v"
| "descend stop (JObj kvs) (Key k # p) =
     (case map_of kvs k of
        None \<Rightarrow> None
      | Some v \<Rightarrow> if stop k v then None else descend stop v p)"
| "descend stop (JArr xs) (Idx i # p) =
     (if i < length xs then descend stop (xs ! i) p else None)"
| "descend stop _ _ = None"

definition offer_stop :: "string \<Rightarrow> json \<Rightarrow> bool" where
  "offer_stop k v = (k = ''offerRating'' \<and> is_dict v)"

definition upgrade_stop :: "string \<Rightarrow> json \<Rightarrow> bool" where
  "upgrade_stop k v = upgrade_key k"

definition name_stop :: "string \<Rightarrow> json \<Rightarrow> bool" where
  "name_stop k v = ((k = ''results'' \<and> is_list v) \<or> (product_key k \<and> is_dict v))"

definition never_stop :: "string \<Rightarrow> json \<Rightarrow> bool" where
  "never_stop k v = False"

text \<open>
  The facts of the occurrences an extractor reaches in \<open>data\<close>: the price pair of every
  reached \<^verbatim>\<open>offerRating\<close> dict with a truthy price; the upgrade of every dict that is
  the value, or a member of the list value, of a reached upgrade key; the name of every
  named dict under a reached \<^verbatim>\<open>product\<close> or \<^verbatim>\<open>item\<close> key and of every named dict in
  a reached \<^verbatim>\<open>results\<close> list.
\<close>

definition reached_offers :: "json \<Rightarrow> price_pair set" where
  "reached_offers data =
     {(dict_get d ''originalPrice'', dict_get d ''finalPrice'') | p kvs d.
        descend offer_stop data p = Some (JObj kvs)
        \<and> map_of kvs ''offerRating'' = Some (JObj d)
        \<and> (truthy (dict_get d ''originalPrice'') \<or> truthy (dict_get d ''finalPrice''))}"

definition reached_upgrades :: "(json \<Rightarrow> string) \<Rightarrow> json \<Rightarrow> upgrade set" where
  "reached_upgrades pystr data =
     {upgrade_of pystr u | p kvs k v u.
        descend upgrade_stop data p = Some (JObj kvs)
        \<and> upgrade_key k \<and> map_of kvs k = Some v
        \<and> (v = JObj u \<or> (\<exists>xs. v = JArr xs \<and> JObj u \<in> set xs))}"

definition reached_names :: "json \<Rightarrow> json set" where
  "reached_names data =
     {dict_get d ''name'' | p kvs k v d.
        descend name_stop data p = Some (JObj kvs)
        \<and> map_of kvs k = Some v \<and> dict_has d ''name''
        \<and> ((product_key k \<and> v = JObj d)
             \<or> (k = ''results'' \<and> (\<exists>xs. v = JArr xs \<and> JObj d \<in> set xs)))}"

text \<open>
  \<open>depth\<close> is the number of nested calls an extractor can make below its first call on
  a value, and \<open>wf_json\<close> says that every dict has one item per key, as a Python dict
  has.
\<close>

fun depth :: "json \<Rightarrow> nat"
and depth_items :: "(string \<times> json) list \<Rightarrow> nat"
and depth_elems :: "json list \<Rightarrow> nat" where
  "depth (JObj kvs) = depth_items kvs"
| "depth (JArr xs) = depth_elems xs"
| "depth _ = 0"
| "depth_items [] = 0"
| "depth_items ((k, v) # kvs) = max (Suc (depth v)) (depth_items kvs)"
| "depth_elems [] = 0"
| "depth_elems (x # xs) = max (Suc (depth x)) (depth_elems xs)"

fun wf_json :: "json \<Rightarrow> bool"
and wf_items :: "(string \<times> json) list \<Rightarrow> bool"
and wf_elems :: "json list \<Rightarrow> bool" where
  "wf_json (JObj kvs) = (distinct (map fst kvs) \<and> wf_items kvs)"
| "wf_json (JArr xs) = wf_elems xs"
| "wf_json _ = True"
| "wf_items [] = True"
| "wf_items ((k, v) # kvs) = (wf_json v \<and> wf_items kvs)"
| "wf_elems [] = True"
| "wf_elems (x # xs) = (wf_json x \<and> wf_elems xs)"

text \<open>
  One traversal that the three extractors are instances of when the stack suffices:
  \<open>m k v\<close> is the list of facts taken from the item \<open>(k, v)\<close> when the extractor handles
  it, and \<open>None\<close> when the extractor descends into \<open>v\<close>. \<open>occurs m data f\<close>: the fact
  \<open>f\<close> is taken from an item that the traversal reaches in \<open>data\<close>.
\<close>

fun walk :: "(string \<Rightarrow> json \<Rightarrow> 'a list option) \<Rightarrow> json \<Rightarrow> 'a list \<Rightarrow> 'a list"
and walk_items :: "(string \<Rightarrow> json \<Rightarrow> 'a list option) \<Rightarrow> (string \<times> json) list \<Rightarrow> 'a list \<Rightarrow> 'a list"
and walk_elems :: "(string \<Rightarrow> json \<Rightarrow> 'a list option) \<Rightarrow> json list \<Rightarrow> 'a list \<Rightarrow> 'a list" where
  "walk m (JObj kvs) acc = walk_items m kvs acc"
| "walk m (JArr xs) acc = walk_elems m xs acc"
| "walk m _ acc = acc"
| "walk_items m [] acc = acc"
| "walk_items m ((k, v) # kvs) acc =
     walk_items m kvs (case m k v of Some facts \<Rightarrow> acc @ facts | None \<Rightarrow> walk m v acc)"
| "walk_elems m [] acc = acc"
| "walk_elems m (x # xs) acc = walk_elems m xs (walk m x acc)"

definition occurs :: "(string \<Rightarrow> json \<Rightarrow> 'a list option) \<Rightarrow> json \<Rightarrow> 'a \<Rightarrow> bool" where
  "occurs m data f =
     (\<exists>p kvs k v facts.
        descend (\<lambda>k v. m k v \<noteq> None) data p = Some (JObj kvs)
        \<and> map_of kvs k = Some v \<and> m k v = Some facts \<and> f \<in> set facts)"

definition offer_match :: "string \<Rightarrow> json \<Rightarrow> price_pair list option" where
  "offer_match k v =
     (if offer_stop k v then
        Some (if truthy (py_or (dict_get (items_of v) ''originalPrice'') (dict_get (items_of v) ''finalPrice''))
              then [(dict_get (items_of v) ''originalPrice'', dict_get (items_of v) ''finalPrice'')]
              else [])
      else None)"

definition upgrade_match :: "(json \<Rightarrow> string) \<Rightarrow> string \<Rightarrow> json \<Rightarrow> upgrade list option" where
  "upgrade_match pystr k v =
     (if upgrade_stop k v then
        Some (if is_list v then map (\<lambda>u. upgrade_of pystr (items_of u)) (filter is_dict (elems_of v))
              else if is_dict v then [upgrade_of pystr (items_of v)] else [])
      else None)"

definition name_match :: "string \<Rightarrow> json \<Rightarrow> json list option" where
  "name_match k v =
     (if name_stop k v then
        Some (if k = ''results'' \<and> is_list v then
                map (\<lambda>r. dict_get (items_of r) ''name'')
                  (filter (\<lambda>r. is_dict r \<and> dict_has (items_of r) ''name'') (elems_of v))
              else if dict_has (items_of v) ''name'' then [dict_get (items_of v) ''name''] else [])
      else None)"

subsection \<open>Listing pages\<close>

text \<open>
  Page \<open>k\<close> of a listing is full when it loads and yields at least one link and at least
  \<open>page_size\<close> links; it is short when it loads and yields no link or fewer than
  \<open>page_size\<close>. \<open>first_short\<close>: page \<open>n\<close> is short and every page before it is full.
\<close>

definition full_page :: "(string \<Rightarrow> error + string option list) \<Rightarrow> string \<Rightarrow> nat \<Rightarrow> nat \<Rightarrow> bool" where
  "full_page goto base_url page_size k =
     (case goto (page_url base_url k) of
        Inl e \<Rightarrow> False
      | Inr asset_items \<Rightarrow>
          card (page_links_of asset_items {}) \<noteq> 0
          \<and> page_size \<le> card (page_links_of asset_items {}))"

definition short_page :: "(string \<Rightarrow> error + string option list) \<Rightarrow> string \<Rightarrow> nat \<Rightarrow> nat \<Rightarrow> bool" where
  "short_page goto base_url page_size k =
     (case goto (page_url base_url k) of
        Inl e \<Rightarrow> False
      | Inr asset_items \<Rightarrow>
          card (page_links_of asset_items {}) = 0
          \<or> card (page_links_of asset_items {}) < page_size)"



definition first_short :: "(string \<Rightarrow> error + string option list) \<Rightarrow> string \<Rightarrow> nat \<Rightarrow> nat \<Rightarrow> bool" where
  "first_short goto base_url page_size n =
     (1 \<le> n \<and> short_page goto base_url page_size n
      \<and> (\<forall>k. 1 \<le> k \<and> k < n \<longrightarrow> full_page goto base_url page_size k))"


subsection \<open>Rows and lines of one asset\<close>

text \<open>
  The rows and text lines that the loops over the price pairs and the upgrades produce, in
  closed form; \<open>price_cols\<close> reads the two price columns of a row.
  \<open>csv_grows P fs fs'\<close>: the CSV file of \<open>fs'\<close> is that of \<open>fs\<close> followed by rows
  that all satisfy \<open>P\<close>.
\<close>

definition rows_of_pair :: "asset_ctx \<Rightarrow> upgrade list \<Rightarrow> price_pair \<Rightarrow> json list list" where
  "rows_of_pair c upgrades p =
     (if upgrades \<noteq> [] then map (upgrade_row c (fst p) (snd p)) upgrades
      else [price_row c (fst p) (snd p)])"

definition lines_of_pair :: "asset_ctx \<Rightarrow> upgrade list \<Rightarrow> price_pair \<Rightarrow> string list" where
  "lines_of_pair c upgrades p =
     (if upgrades \<noteq> [] then map (upgrade_line c (fst p) (snd p)) upgrades
      else [price_line c (fst p) (snd p)])"

definition asset_rows :: "asset_ctx \<Rightarrow> upgrade list \<Rightarrow> price_pair list \<Rightarrow> json list list" where
  "asset_rows c upgrades unique =
     (if unique \<noteq> [] then concat (map (rows_of_pair c upgrades) unique) else [no_offer_row c])"

definition asset_lines :: "asset_ctx \<Rightarrow> upgrade list \<Rightarrow> price_pair list \<Rightarrow> string list" where
  "asset_lines c upgrades unique =
     (if unique \<noteq> [] then concat (map (lines_of_pair c upgrades) unique) else [no_offer_line c])"

definition text_of_lines :: "string list \<Rightarrow> string" where
  "text_of_lines ls = concat (map (\<lambda>l. l @ [LF]) ls)"

definition price_cols :: "json list \<Rightarrow> json \<times> json" where
  "price_cols row = (row ! 1, row ! 2)"


text \<open>
  \<open>column name row\<close> is the cell of \<open>row\<close> under the header cell \<open>name\<close>, as a reader
  of the CSV file finds it. \<open>data_row pystr publisher link fa row\<close>: \<open>row\<close> has eight
  cells and each holds what its header names, for the asset at \<open>link\<close> with the collected
  facts \<open>fa\<close>, listed by \<open>publisher\<close>. The name is the asset's name; the two prices are
  those of one collected pair, \<^verbatim>\<open>N/A\<close> for a falsy one, and both are empty when no pair
  was collected; the upgrade name and link are those of one collected upgrade, the link
  empty when the upgrade has no URL, and both are empty when no pair or no upgrade was
  collected; then a hyperlink to the asset labelled with its name, the publisher's name,
  and a hyperlink to the publisher's page labelled with the publisher's name.
\<close>

definition column :: "string \<Rightarrow> json list \<Rightarrow> json" where
  "column name row = (case map_of (zip HEADER row) (JStr name) of Some cell \<Rightarrow> cell | None \<Rightarrow> JNull)"

definition data_row ::
  "(json \<Rightarrow> string) \<Rightarrow> string \<times> string \<Rightarrow> string \<Rightarrow> facts \<Rightarrow> json list \<Rightarrow> bool" where
  "data_row pystr publisher link fa row =
     (length row = 8
      \<and> column ''Asset Name'' row = asset_name_of link (asset_names fa)
      \<and> (if found_prices fa = [] then
           column ''Original Price'' row = JStr [] \<and> column ''Final Price'' row = JStr []
         else
           list_ex (\<lambda>p. column ''Original Price'' row = na (fst p)
                        \<and> column ''Final Price'' row = na (snd p)) (found_prices fa))
      \<and> (if found_prices fa = [] \<or> upgrade_from fa = [] then
           column ''Upgrade From'' row = JStr [] \<and> column ''Upgrade URL'' row = JStr []
         else
           list_ex (\<lambda>u. column ''Upgrade From'' row = fst u
                        \<and> column ''Upgrade URL'' row =
                            JStr (if snd u \<noteq> [] then wrap_hyperlink pystr (snd u) (fst u) else []))
             (upgrade_from fa))
      \<and> column ''Asset URL'' row
          = JStr (wrap_hyperlink pystr link (asset_name_of link (asset_names fa)))
      \<and> column ''Publisher Name'' row = JStr (fst publisher)
      \<and> column ''Publisher Page'' row
          = JStr (wrap_hyperlink pystr (snd publisher) (JStr (fst publisher))))"

text \<open>
  \<open>collected env link\<close> is the facts the handler has collected from the responses of the
  asset page at \<open>link\<close>, when that page loads. \<open>row_of_run env publishers row\<close>:
  \<open>row\<close> is a data row of an asset whose page loads, with the facts collected there, for
  one of the \<open>publishers\<close>.
\<close>

definition collected :: "env \<Rightarrow> string \<Rightarrow> facts option" where
  "collected env link =
     (case env_visit env link of
        Inl e \<Rightarrow> None
      | Inr responses \<Rightarrow>
          Some (foldl (\<lambda>fa r. handle_response (env_pystr env) (env_dumps env) (env_frames env) r fa)
                  no_facts responses))"

definition row_of_run :: "env \<Rightarrow> (string \<times> string) list \<Rightarrow> json list \<Rightarrow> bool" where
  "row_of_run env publishers row =
     (\<exists>publisher link fa.
        publisher \<in> set publishers \<and> collected env link = Some fa
        \<and> data_row (env_pystr env) publisher link fa row)"

definition csv_grows :: "(json list \<Rightarrow> bool) \<Rightarrow> files \<Rightarrow> files \<Rightarrow> bool" where
  "csv_grows P fs fs' =
     (\<exists>new. contents (output_csv fs') = contents (output_csv fs) @ new \<and> list_all P new)"

subsection \<open>Deduplicated price pairs\<close>

text \<open>
  \<open>py_distinct\<close>: no two members are equal as Python tuples. \<open>covers unique found\<close>:
  every member of \<open>unique\<close> was collected, and every collected pair equals a member.
\<close>

definition py_distinct :: "price_pair list \<Rightarrow> bool" where
  "py_distinct ps = (distinct ps \<and> (\<forall>p\<in>set ps. \<forall>q\<in>set ps. pair_eq p q \<longrightarrow> p = q))"

definition covers :: "price_pair list \<Rightarrow> price_pair list \<Rightarrow> bool" where
  "covers unique found = (set unique \<subseteq> set found \<and> (\<forall>p\<in>set found. \<exists>q\<in>set unique. pair_eq p q))"

section \<open>Example inputs\<close>

text \<open>
  Concrete inputs for the examples below. \<open>no_str\<close> and \<open>no_dumps\<close> stand in for
  \<^verbatim>\<open>str\<close> and \<^verbatim>\<open>json.dumps\<close> where no example value reaches them, and
  \<open>insertion_order\<close> is the iteration order that keeps the order of insertion.
  \<open>one_asset_env\<close> is a store whose listing pages all show one asset, whose pages load,
  and whose asset page sends no response; \<open>dup_publishers_files\<close> is a first run whose
  publisher file names the default publisher twice, and \<open>dup_final_files\<close> the files
  after that run. \<open>offer_dumps\<close> is \<^verbatim>\<open>json.dumps\<close> at \<open>offer_data\<close>.
\<close>

definition no_str :: "json \<Rightarrow> string" where
  "no_str v = []"

definition no_dumps :: "json \<Rightarrow> error + string" where
  "no_dumps v = Inr []"

definition insertion_order :: "price_pair list \<Rightarrow> price_pair list" where
  "insertion_order s = s"

definition sky_link :: string where
  "sky_link = ''https://assetstore.unity.com/packages/tools/sky-1''"

definition one_asset_env :: env where
  "one_asset_env =
     \<lparr>env_pystr = no_str, env_dumps = no_dumps, env_frames = 900,
      env_set_order = insertion_order,
      env_goto = (\<lambda>url. None),
      env_listing = (\<lambda>url. Inr [Some ''/packages/tools/sky-1'']),
      env_visit = (\<lambda>link. Inr [])\<rparr>"

definition publisher_line :: string where
  "publisher_line = ''ARTnGAME,https://assetstore.unity.com/publishers/6503?pageSize=96''"

definition dup_publishers_files :: files where
  "dup_publishers_files =
     \<lparr>output_txt = None, output_csv = None, progress_file = None,
      publishers_txt = Some (publisher_line @ [LF] @ publisher_line @ [LF])\<rparr>"


definition sky_row :: "json list" where
  \<open>sky_row = [JStr ''sky-1'', JStr [], JStr [], JStr [], JStr [],
     JStr ''=HYPERLINK("https://assetstore.unity.com/packages/tools/sky-1","sky-1")'',
     JStr ''ARTnGAME'',
     JStr ''=HYPERLINK("https://assetstore.unity.com/publishers/6503?pageSize=96","ARTnGAME")'']\<close>

definition sky_line :: string where
  "sky_line = ''sky-1 | No offerRating found | https://assetstore.unity.com/packages/tools/sky-1''"

definition dup_final_files :: files where
  "dup_final_files =
     \<lparr>output_txt = Some (sky_line @ [LF] @ sky_line @ [LF]),
      output_csv = Some [HEADER, sky_row, sky_row],
      progress_file = Some (sky_link @ [LF] @ sky_link @ [LF]),
      publishers_txt = Some (publisher_line @ [LF] @ publisher_line @ [LF])\<rparr>"

definition empty_files :: files where
  "empty_files = \<lparr>output_txt = None, output_csv = None, progress_file = None, publishers_txt = None\<rparr>"

definition two_upgrade_facts :: facts where
  "two_upgrade_facts =
     \<lparr>found_prices = [(JStr ''20.00'', JStr ''10.00''), (JStr ''20.00'', JStr ''10.00'')],
      upgrade_from = [(JStr ''Sky Lite'', ''https://assetstore.unity.com/packages/tools/sky-lite-2''),
                      (JStr ''Sky Basic'', ''https://assetstore.unity.com/packages/tools/sky-basic-3'')],
      asset_names = [JStr ''Sky Master'', JStr ''Sky'']\<rparr>"


definition two_page_listing :: "string \<Rightarrow> error + string option list" where
  "two_page_listing url =
     (if url = ''https://assetstore.unity.com/publishers/7?pageSize=2&page=1''
      then Inr [Some ''/packages/tools/a-1'', Some ''/packages/tools/b-2'', Some ''/packages/tools/a-1'']
      else Inr [Some ''/packages/tools/c-3'', None])"

definition offer_data :: json where
  "offer_data =
     JObj [(''data'', JArr [JObj [(''offerRating'',
        JObj [(''originalPrice'', JStr ''20.00''), (''finalPrice'', JStr ''10.00'')])]])]"

definition offer_dumps :: "json \<Rightarrow> error + string" where
  \<open>offer_dumps v =
     Inr (if v = offer_data
          then ''{"data": [{"offerRating": {"originalPrice": "20.00", "finalPrice": "10.00"}}]}''
          else [])\<close>

definition offer_response :: response where
  "offer_response = \<lparr>all_headers = Inr [(''content-type'', ''application/json'')],
                      json_body = Inr offer_data\<rparr>"

definition nested_product_data :: json where
  "nested_product_data =
     JObj [(''results'', JArr [JObj [(''product'', JObj [(''name'', JStr ''Sky Master'')])]])]"


text \<open>
  \<open>deep_data\<close> is the dict with the item \<^verbatim>\<open>"offerRating": {"finalPrice": "5"}\<close>
  followed by the item \<^verbatim>\<open>"tree"\<close>, whose value is \<^verbatim>\<open>null\<close> inside 1000 nested
  lists; \<open>deep_dumps\<close> is its serialisation, and \<open>deep_response\<close> a response that
  carries it.
\<close>

fun nested :: "nat \<Rightarrow> json \<Rightarrow> json" where
  "nested 0 v = v"
| "nested (Suc n) v = JArr [nested n v]"




text \<open>
  \<open>three_asset_env\<close> is a store whose listing shows three assets on one page. The page of
  the first sends one response with a product name, an offer and an upgrade; the page of
  the second sends one with an offer whose original price is null; the page of the third
  sends none. \<open>three_dumps\<close> is \<^verbatim>\<open>json.dumps\<close> at the two response values;
  \<open>sky_facts\<close> and \<open>sea_facts\<close> are the facts collected from them, and the three rows
  are the rows a run writes for the three assets.
\<close>

definition sea_link :: string where
  "sea_link = ''https://assetstore.unity.com/packages/tools/sea-2''"

definition ice_link :: string where
  "ice_link = ''https://assetstore.unity.com/packages/tools/ice-3''"

definition sky_data :: json where
  "sky_data =
     JObj [(''product'', JObj [(''name'', JStr ''Sky Master'')]),
           (''detail'', JObj [
              (''offerRating'', JObj [(''originalPrice'', JStr ''20.00''), (''finalPrice'', JStr ''10.00'')]),
              (''upgradeFrom'', JArr [JObj [(''name'', JStr ''Sky Lite''),
                                            (''url'', JStr ''/packages/tools/sky-lite-4'')]])])]"

definition sea_data :: json where
  "sea_data =
     JObj [(''offerRating'', JObj [(''originalPrice'', JNull), (''finalPrice'', JStr ''7.50'')])]"

definition three_dumps :: "json \<Rightarrow> error + string" where
  \<open>three_dumps v =
     Inr (if v = sky_data then
            ''{"product": {"name": "Sky Master"}, "detail": {"offerRating": {"originalPrice": "20.00", "finalPrice": "10.00"}, "upgradeFrom": [{"name": "Sky Lite", "url": "/packages/tools/sky-lite-4"}]}}''
          else if v = sea_data then
            ''{"offerRating": {"originalPrice": null, "finalPrice": "7.50"}}''
          else [])\<close>

definition json_response :: "json \<Rightarrow> response" where
  "json_response data = \<lparr>all_headers = Inr [(''content-type'', ''application/json'')],
                          json_body = Inr data\<rparr>"

definition three_asset_env :: env where
  "three_asset_env =
     \<lparr>env_pystr = no_str, env_dumps = three_dumps, env_frames = 900,
      env_set_order = insertion_order,
      env_goto = (\<lambda>url. None),
      env_listing = (\<lambda>url. Inr [Some ''/packages/tools/sky-1'', Some ''/packages/tools/sea-2'',
                                 Some ''/packages/tools/ice-3'']),
      env_visit = (\<lambda>link. if link = sky_link then Inr [json_response sky_data]
                           else if link = sea_link then Inr [json_response sea_data]
                           else Inr [])\<rparr>"

definition sky_facts :: facts where
  "sky_facts =
     \<lparr>found_prices = [(JStr ''20.00'', JStr ''10.00'')],
      upgrade_from = [(JStr ''Sky Lite'', ''https://assetstore.unity.com/packages/tools/sky-lite-4'')],
      asset_names = [JStr ''Sky Master'']\<rparr>"

definition sea_facts :: facts where
  "sea_facts = \<lparr>found_prices = [(JNull, JStr ''7.50'')], upgrade_from = [], asset_names = []\<rparr>"

definition sky_upgrade_row :: "json list" where
  \<open>sky_upgrade_row = [JStr ''Sky Master'', JStr ''20.00'', JStr ''10.00'', JStr ''Sky Lite'',
     JStr ''=HYPERLINK("https://assetstore.unity.com/packages/tools/sky-lite-4","Sky Lite")'',
     JStr ''=HYPERLINK("https://assetstore.unity.com/packages/tools/sky-1","Sky Master")'',
     JStr ''ARTnGAME'',
     JStr ''=HYPERLINK("https://assetstore.unity.com/publishers/6503?pageSize=96","ARTnGAME")'']\<close>

definition sea_row :: "json list" where
  \<open>sea_row = [JStr ''sea-2'', JStr ''N/A'', JStr ''7.50'', JStr [], JStr [],
     JStr ''=HYPERLINK("https://assetstore.unity.com/packages/tools/sea-2","sea-2")'',
     JStr ''ARTnGAME'',
     JStr ''=HYPERLINK("https://assetstore.unity.com/publishers/6503?pageSize=96","ARTnGAME")'']\<close>

definition ice_row :: "json list" where
  \<open>ice_row = [JStr ''ice-3'', JStr [], JStr [], JStr [], JStr [],
     JStr ''=HYPERLINK("https://assetstore.unity.com/packages/tools/ice-3","ice-3")'',
     JStr ''ARTnGAME'',
     JStr ''=HYPERLINK("https://assetstore.unity.com/publishers/6503?pageSize=96","ARTnGAME")'']\<close>

section \<open>Lemmas: lines, stripping and splitting\<close>

lemma readlines_nonempty: "cs \<noteq> [] \<Longrightarrow> readlines cs \<noteq> []"
proof (cases cs)
  case Nil
  assume "cs \<noteq> []"
  with Nil show ?thesis by simp
next
  case (Cons a as)
  show ?thesis unfolding Cons
    by (cases as; cases "readlines as"; simp)
qed

lemma readlines_append_LF:
  "readlines (c @ LF # rest) = readlines (c @ [LF]) @ readlines rest"
proof (induction c rule: readlines.induct)
  case 1
  then show ?case by simp
next
  case (2 c cs)
  show ?case
  proof (cases "c = LF")
    case True
    with 2 show ?thesis by simp
  next
    case nLF: False
    show ?thesis
    proof (cases "c = CR")
      case True
      then show ?thesis using 2 nLF
        by (cases cs) auto
    next
      case False
      have ne: "readlines (cs @ [LF]) \<noteq> []" by (rule readlines_nonempty) simp
      from 2(4)[OF nLF False] have "readlines (cs @ LF # rest) = readlines (cs @ [LF]) @ readlines rest" .
      then show ?thesis using nLF False ne
        by (cases "readlines (cs @ [LF])") auto
    qed
  qed
qed

lemma readlines_line:
  "LF \<notin> set l \<Longrightarrow> CR \<notin> set l \<Longrightarrow> readlines (l @ [LF]) = [l @ [LF]]"
  by (induction l) auto

lemma is_space_LF: "is_space LF"
  by (simp add: is_space_def)

lemma strip_fixed_append_LF:
  assumes "strip l = l"
  shows "strip (l @ [LF]) = l"
proof (cases l)
  case Nil
  then show ?thesis by (simp add: strip_def is_space_LF)
next
  case (Cons a as)
  have a: "\<not> is_space a"
  proof
    assume sp: "is_space a"
    have "length (strip l) \<le> length (dropWhile is_space l)"
      unfolding strip_def using length_dropWhile_le[of is_space "rev (dropWhile is_space l)"] by simp
    also have "\<dots> \<le> length as" using sp Cons
      by (simp add: length_dropWhile_le)
    also have "\<dots> < length l" using Cons by simp
    finally show False using assms by simp
  qed
  then have d: "dropWhile is_space l = l" "dropWhile is_space (l @ [LF]) = l @ [LF]"
    using Cons by simp_all
  from assms d have "rev (dropWhile is_space (rev l)) = l" by (simp add: strip_def)
  then have "rev (rev (dropWhile is_space (rev l))) = rev l" by simp
  then have "dropWhile is_space (rev l) = rev l" by simp
  then show ?thesis using d by (simp add: strip_def is_space_LF)
qed


lemma mem_dropWhile: "x \<in> set xs \<Longrightarrow> \<not> P x \<Longrightarrow> x \<in> set (dropWhile P xs)"
  by (induction xs) auto

lemma mem_strip: "c \<in> set l \<Longrightarrow> \<not> is_space c \<Longrightarrow> c \<in> set (strip l)"
  unfolding strip_def by (simp add: mem_dropWhile)

lemma comma_not_space: "\<not> is_space (CHR '','')"
  by (simp add: is_space_def)

lemma split1_two:
  "sep \<in> set s \<Longrightarrow> \<exists>a b. split1 sep s = [a, b] \<and> s = a @ sep # b \<and> sep \<notin> set a"
proof -
  assume m: "sep \<in> set s"
  let ?a = "takeWhile (\<lambda>c. c \<noteq> sep) s" and ?d = "dropWhile (\<lambda>c. c \<noteq> sep) s"
  from m have "?d \<noteq> []" by (simp add: dropWhile_eq_Nil_conv) 
  moreover from this have "hd ?d = sep" using hd_dropWhile[of "\<lambda>c. c \<noteq> sep" s] by simp
  ultimately have "?d = sep # tl ?d" by (cases ?d) auto
  then have "s = ?a @ sep # tl ?d" using takeWhile_dropWhile_id[of "\<lambda>c. c \<noteq> sep" s] by simp
  moreover have "sep \<notin> set ?a" by (auto dest: set_takeWhileD)
  ultimately show ?thesis using m by (auto simp: split1_def)
qed

lemma parse_publishers_closed:
  "\<exists>ps. parse_publishers lines acc = Inr (acc @ ps)
        \<and> list_all2 name_url_of (filter qualifying lines) ps"
proof (induction lines arbitrary: acc)
  case Nil
  then show ?case by simp
next
  case (Cons line lines)
  show ?case
  proof (cases "qualifying line")
    case False
    then have "parse_publishers (line # lines) acc = parse_publishers lines acc"
      by (auto simp: qualifying_def)
    moreover have "filter qualifying (line # lines) = filter qualifying lines"
      using False by simp
    ultimately show ?thesis using Cons[of acc] by simp
  next
    case True
    then have "CHR '','' \<in> set (strip line)"
      by (simp add: qualifying_def mem_strip comma_not_space)
    from split1_two[OF this] obtain a b where
      ab: "split1 (CHR '','') (strip line) = [a, b]" "strip line = a @ CHR '','' # b" "CHR '','' \<notin> set a"
      by blast
    from Cons[of "acc @ [(strip a, strip b)]"] obtain ps where
      ps: "parse_publishers lines (acc @ [(strip a, strip b)]) = Inr ((acc @ [(strip a, strip b)]) @ ps)"
          "list_all2 name_url_of (filter qualifying lines) ps" by blast
    have nu: "name_url_of line (strip a, strip b)"
      unfolding name_url_of_def using ab by blast
    from True have "parse_publishers (line # lines) acc
        = parse_publishers lines (acc @ [(strip a, strip b)])"
      by (simp add: qualifying_def ab(1))
    then have "parse_publishers (line # lines) acc = Inr (acc @ (strip a, strip b) # ps)"
      using ps(1) by simp
    moreover have "list_all2 name_url_of (filter qualifying (line # lines)) ((strip a, strip b) # ps)"
      using True nu ps(2) by simp
    ultimately show ?thesis by blast
  qed
qed

section \<open>Lemmas: the extractors as one traversal\<close>

lemma walk_append_all:
  fixes dummy :: "'a list"
  shows "\<forall>a. walk m v a = a @ walk m v ([]::'a list)"
    and "\<forall>a. walk_items m kvs a = a @ walk_items m kvs ([]::'a list)"
    and "\<forall>a. walk_elems m xs a = a @ walk_elems m xs ([]::'a list)"
proof (induct m v dummy and m kvs dummy and m xs dummy rule: walk_walk_items_walk_elems.induct)
  case (1 m kvs acc)
  show ?case unfolding walk.simps by (rule 1)
next
  case (2 m xs acc)
  show ?case unfolding walk.simps by (rule 2)
next
  case (5 m k v kvs acc)
  show ?case
  proof
    fix a :: "'a list"
    define nxt where "nxt b = (case m k v of Some facts \<Rightarrow> b @ facts | None \<Rightarrow> walk m v b)" for b
    have step: "nxt a = a @ nxt []"
    proof (cases "m k v")
      case None
      from 5(1)[OF None] have "walk m v a = a @ walk m v []" by blast
      then show ?thesis using None by (simp add: nxt_def)
    next
      case (Some facts)
      then show ?thesis by (simp add: nxt_def)
    qed
    have "walk_items m ((k, v) # kvs) a = walk_items m kvs (nxt a)"
      by (simp add: nxt_def)
    also have "\<dots> = nxt a @ walk_items m kvs []" using 5(2) by blast
    also have "\<dots> = a @ (nxt [] @ walk_items m kvs [])" using step by simp
    also have "nxt [] @ walk_items m kvs [] = walk_items m kvs (nxt [])" using 5(2) by metis
    also have "\<dots> = walk_items m ((k, v) # kvs) []" by (simp add: nxt_def)
    finally show "walk_items m ((k, v) # kvs) a = a @ walk_items m ((k, v) # kvs) []" .
  qed
next
  case (7 m x xs acc)
  show ?case
  proof
    fix a :: "'a list"
    have "walk_elems m (x # xs) a = walk_elems m xs (walk m x a)" by simp
    also have "\<dots> = walk m x a @ walk_elems m xs []" using 7(2) by blast
    also have "\<dots> = a @ (walk m x [] @ walk_elems m xs [])" using 7(1) by (metis append.assoc)
    also have "walk m x [] @ walk_elems m xs [] = walk_elems m xs (walk m x [])" using 7(2) by metis
    also have "\<dots> = walk_elems m (x # xs) []" by simp
    finally show "walk_elems m (x # xs) a = a @ walk_elems m (x # xs) []" .
  qed
qed simp_all

lemma walk_append: "walk m v a = a @ walk m v []"
  using walk_append_all(1)[of m v] by blast

lemma walk_items_append: "walk_items m kvs a = a @ walk_items m kvs []"
  using walk_append_all(2)[of m kvs] by blast

lemma walk_elems_append: "walk_elems m xs a = a @ walk_elems m xs []"
  using walk_append_all(3)[of m xs] by blast


lemma walk_items_hit:
  assumes "(k, v) \<in> set kvs" and "m k v = Some facts" and "f \<in> set facts"
  shows "f \<in> set (walk_items m kvs acc)"
  using assms(1)
proof (induction kvs arbitrary: acc)
  case Nil
  then show ?case by simp
next
  case (Cons kv kvs)
  obtain k' v' where kv: "kv = (k', v')" by (cases kv)
  define nxt where "nxt = (case m k' v' of Some facts \<Rightarrow> acc @ facts | None \<Rightarrow> walk m v' acc)"
  have eq: "walk_items m (kv # kvs) acc = nxt @ walk_items m kvs []"
    using walk_items_append[of m kvs nxt] by (simp add: kv nxt_def)
  show ?case
  proof (cases "kv = (k, v)")
    case True
    then have "f \<in> set nxt" using assms(2,3) kv by (simp add: nxt_def)
    then show ?thesis using eq by simp
  next
    case False
    with Cons.prems have "(k, v) \<in> set kvs" by simp
    from Cons.IH[OF this, of "[]"] show ?thesis using eq by simp
  qed
qed

lemma walk_items_pass:
  assumes "(k, v) \<in> set kvs" and "m k v = None" and "f \<in> set (walk m v [])"
  shows "f \<in> set (walk_items m kvs acc)"
  using assms(1)
proof (induction kvs arbitrary: acc)
  case Nil
  then show ?case by simp
next
  case (Cons kv kvs)
  obtain k' v' where kv: "kv = (k', v')" by (cases kv)
  define nxt where "nxt = (case m k' v' of Some facts \<Rightarrow> acc @ facts | None \<Rightarrow> walk m v' acc)"
  have eq: "walk_items m (kv # kvs) acc = nxt @ walk_items m kvs []"
    using walk_items_append[of m kvs nxt] by (simp add: kv nxt_def)
  show ?case
  proof (cases "kv = (k, v)")
    case True
    then have "nxt = acc @ walk m v []"
      using assms(2) kv walk_append[of m v acc] by (simp add: nxt_def)
    then show ?thesis using eq assms(3) by simp
  next
    case False
    with Cons.prems have "(k, v) \<in> set kvs" by simp
    from Cons.IH[OF this, of "[]"] show ?thesis using eq by simp
  qed
qed

lemma walk_elems_pass:
  assumes "x \<in> set xs" and "f \<in> set (walk m x [])"
  shows "f \<in> set (walk_elems m xs acc)"
  using assms(1)
proof (induction xs arbitrary: acc)
  case Nil
  then show ?case by simp
next
  case (Cons y ys)
  have eq: "walk_elems m (y # ys) acc = (acc @ walk m y []) @ walk_elems m ys []"
    using walk_elems_append[of m ys "walk m y acc"] walk_append[of m y acc] by simp
  show ?case
  proof (cases "y = x")
    case True
    then show ?thesis using eq assms(2) by simp
  next
    case False
    with Cons.prems have "x \<in> set ys" by simp
    from Cons.IH[OF this, of "[]"] show ?thesis using eq by simp
  qed
qed

lemma walk_reaches:
  assumes "descend (\<lambda>k v. m k v \<noteq> None) data p = Some (JObj kvs)"
    and "map_of kvs k = Some v" and "m k v = Some facts" and "f \<in> set facts"
  shows "f \<in> set (walk m data acc)"
proof -
  have hit: "f \<in> set (walk_items m kvs [])"
    using map_of_SomeD[OF assms(2)] assms(3,4) by (rule walk_items_hit)
  have "f \<in> set (walk m data [])"
    using assms(1)
  proof (induction p arbitrary: data)
    case Nil
    then have "data = JObj kvs" by simp
    then show ?case using hit by simp
  next
    case (Cons s p)
    show ?case
    proof (cases s)
      case (Key k')
      with Cons.prems obtain kvs' where d: "data = JObj kvs'"
        by (cases data) simp_all
      with Cons.prems Key obtain v' where
        v': "map_of kvs' k' = Some v'" "m k' v' = None"
            "descend (\<lambda>k v. m k v \<noteq> None) v' p = Some (JObj kvs)"
        by (auto split: option.splits if_splits)
      from Cons.IH[OF v'(3)] have "f \<in> set (walk m v' [])" .
      with map_of_SomeD[OF v'(1)] v'(2) have "f \<in> set (walk_items m kvs' [])"
        by (rule walk_items_pass)
      then show ?thesis using d by simp
    next
      case (Idx i)
      with Cons.prems obtain xs where d: "data = JArr xs"
        by (cases data) simp_all
      with Cons.prems Idx have
        i: "i < length xs" "descend (\<lambda>k v. m k v \<noteq> None) (xs ! i) p = Some (JObj kvs)"
        by (auto split: if_splits)
      from Cons.IH[OF i(2)] have "f \<in> set (walk m (xs ! i) [])" .
      with nth_mem[OF i(1)] have "f \<in> set (walk_elems m xs [])"
        by (rule walk_elems_pass)
      then show ?thesis using d by simp
    qed
  qed
  then show ?thesis using walk_append[of m data acc] by simp
qed

lemma upgrade_entries_closed:
  "upgrade_entries pystr xs acc = acc @ map (\<lambda>u. upgrade_of pystr (items_of u)) (filter is_dict xs)"
  by (induction xs arbitrary: acc) simp_all

lemma result_names_closed:
  "result_names xs acc = acc @ map (\<lambda>r. dict_get (items_of r) ''name'')
     (filter (\<lambda>r. is_dict r \<and> dict_has (items_of r) ''name'') xs)"
  by (induction xs arbitrary: acc) simp_all

subsection \<open>What a traversal collects\<close>

lemma occursI:
  assumes "descend (\<lambda>k v. m k v \<noteq> None) data p = Some (JObj kvs)"
    and "map_of kvs k = Some v" and "m k v = Some facts" and "f \<in> set facts"
  shows "occurs m data f"
  unfolding occurs_def
  apply (rule exI[of _ p], rule exI[of _ kvs], rule exI[of _ k], rule exI[of _ v],
         rule exI[of _ facts])
  using assms apply simp
  done

lemma occursE:
  assumes "occurs m data f"
  obtains p kvs k v facts where
    "descend (\<lambda>k v. m k v \<noteq> None) data p = Some (JObj kvs)"
    "map_of kvs k = Some v" "m k v = Some facts" "f \<in> set facts"
proof -
  from assms[unfolded occurs_def] obtain p kvs k v facts where
    "descend (\<lambda>k v. m k v \<noteq> None) data p = Some (JObj kvs)
      \<and> map_of kvs k = Some v \<and> m k v = Some facts \<and> f \<in> set facts"
    by (elim exE)
  then show ?thesis using that by blast
qed

lemma walk_items_set:
  "set (walk_items m kvs []) =
     (\<Union>(k, v)\<in>set kvs. case m k v of Some facts \<Rightarrow> set facts | None \<Rightarrow> set (walk m v []))"
proof (induction kvs)
  case Nil
  show ?case by simp
next
  case (Cons kv kvs)
  obtain k v where kv: "kv = (k, v)" by (cases kv)
  have "walk_items m (kv # kvs) [] =
          (case m k v of Some facts \<Rightarrow> facts | None \<Rightarrow> walk m v []) @ walk_items m kvs []"
    using walk_items_append[of m kvs "case m k v of Some facts \<Rightarrow> [] @ facts | None \<Rightarrow> walk m v []"]
    by (cases "m k v") (simp_all add: kv)
  then show ?case using Cons.IH by (simp add: kv split: option.splits)
qed

lemma walk_elems_set:
  "set (walk_elems m xs []) = (\<Union>x\<in>set xs. set (walk m x []))"
proof (induction xs)
  case Nil
  show ?case by simp
next
  case (Cons x xs)
  have "walk_elems m (x # xs) [] = walk m x [] @ walk_elems m xs []"
    using walk_elems_append[of m xs "walk m x []"] by simp
  then show ?case using Cons.IH by simp
qed

lemma wf_items_iff: "wf_items kvs = (\<forall>(k, v)\<in>set kvs. wf_json v)"
  by (induction kvs) auto

lemma wf_elems_iff: "wf_elems xs = (\<forall>x\<in>set xs. wf_json x)"
  by (induction xs) auto

lemma walk_occurs:
  "wf_json data \<Longrightarrow> f \<in> set (walk m data []) \<Longrightarrow> occurs m data f"
proof (induction data)
  case (JArr xs)
  from JArr.prems(2) obtain x where x: "x \<in> set xs" "f \<in> set (walk m x [])"
    by (auto simp: walk_elems_set)
  from JArr.prems(1) x(1) have "wf_json x" by (simp add: wf_elems_iff)
  from JArr.IH[OF x(1) this x(2)] obtain p kvs k v facts where
    o: "descend (\<lambda>k v. m k v \<noteq> None) x p = Some (JObj kvs)"
       "map_of kvs k = Some v" "m k v = Some facts" "f \<in> set facts"
    by (rule occursE)
  from x(1) obtain i where i: "i < length xs" "xs ! i = x" by (auto simp: in_set_conv_nth)
  have "descend (\<lambda>k v. m k v \<noteq> None) (JArr xs) (Idx i # p) = Some (JObj kvs)"
    using i o(1) by simp
  then show ?case using o(2-4) by (rule occursI)
next
  case (JObj kvs)
  from JObj.prems(1) have d: "distinct (map fst kvs)" and w: "wf_items kvs" by simp_all
  from JObj.prems(2) obtain k v where kv: "(k, v) \<in> set kvs"
      "f \<in> (case m k v of Some facts \<Rightarrow> set facts | None \<Rightarrow> set (walk m v []))"
    by (auto simp: walk_items_set)
  from d kv(1) have mk: "map_of kvs k = Some v" by simp
  show ?case
  proof (cases "m k v")
    case (Some facts)
    with kv(2) have "f \<in> set facts" by simp
    moreover have "descend (\<lambda>k v. m k v \<noteq> None) (JObj kvs) [] = Some (JObj kvs)" by simp
    ultimately show ?thesis using mk Some by (intro occursI[of m "JObj kvs" "[]" kvs k v facts f])
  next
    case None
    with kv(2) have fw: "f \<in> set (walk m v [])" by simp
    from w kv(1) have "wf_json v" by (auto simp: wf_items_iff)
    have "v \<in> Basic_BNFs.snds (k, v)" by simp
    from JObj.IH[OF kv(1) this \<open>wf_json v\<close> fw] obtain p kvs' k' v' facts where
      o: "descend (\<lambda>k v. m k v \<noteq> None) v p = Some (JObj kvs')"
         "map_of kvs' k' = Some v'" "m k' v' = Some facts" "f \<in> set facts"
      by (rule occursE)
    have "descend (\<lambda>k v. m k v \<noteq> None) (JObj kvs) (Key k # p) = Some (JObj kvs')"
      using mk None o(1) by simp
    then show ?thesis using o(2-4) by (rule occursI)
  qed
qed simp_all

lemma walk_set:
  assumes "wf_json data"
  shows "set (walk m data acc) = set acc \<union> {f. occurs m data f}"
proof -
  have "set (walk m data acc) = set acc \<union> set (walk m data [])"
    using walk_append[of m data acc] by simp
  moreover have "set (walk m data []) = {f. occurs m data f}"
  proof (intro set_eqI iffI)
    fix f assume "f \<in> set (walk m data [])"
    with assms have "occurs m data f" by (rule walk_occurs)
    then show "f \<in> {f. occurs m data f}" by simp
  next
    fix f assume "f \<in> {f. occurs m data f}"
    then have "occurs m data f" by simp
    then obtain p kvs k v facts where
      "descend (\<lambda>k v. m k v \<noteq> None) data p = Some (JObj kvs)"
      "map_of kvs k = Some v" "m k v = Some facts" "f \<in> set facts"
      by (rule occursE)
    then show "f \<in> set (walk m data [])" by (rule walk_reaches)
  qed
  ultimately show ?thesis by simp
qed

lemma truthy_py_or: "truthy (py_or a b) = (truthy a \<or> truthy b)"
  by (simp add: py_or_def)

lemma offer_stop_match: "(\<lambda>k v. offer_match k v \<noteq> None) = offer_stop"
  by (intro ext) (simp add: offer_match_def)

lemma upgrade_stop_match: "(\<lambda>k v. upgrade_match pystr k v \<noteq> None) = upgrade_stop"
  by (intro ext) (simp add: upgrade_match_def)

lemma name_stop_match: "(\<lambda>k v. name_match k v \<noteq> None) = name_stop"
  by (intro ext) (simp add: name_match_def)

lemma is_dict_iff: "is_dict v = (\<exists>d. v = JObj d)"
  by (cases v) simp_all

lemma is_list_iff: "is_list v = (\<exists>xs. v = JArr xs)"
  by (cases v) simp_all

lemma reached_offers_occurs: "reached_offers data = {f. occurs offer_match data f}"
proof (intro set_eqI iffI)
  fix f assume "f \<in> reached_offers data"
  then obtain p kvs d where
    r: "f = (dict_get d ''originalPrice'', dict_get d ''finalPrice'')"
       "descend offer_stop data p = Some (JObj kvs)"
       "map_of kvs ''offerRating'' = Some (JObj d)"
       "truthy (dict_get d ''originalPrice'') \<or> truthy (dict_get d ''finalPrice'')"
    unfolding reached_offers_def by blast
  have m: "offer_match ''offerRating'' (JObj d) = Some [f]"
    using r(1,4) by (simp add: offer_match_def offer_stop_def truthy_py_or)
  have "occurs offer_match data f"
    using r(2)[folded offer_stop_match] r(3) m by (rule occursI) simp
  then show "f \<in> {f. occurs offer_match data f}" by simp
next
  fix f assume "f \<in> {f. occurs offer_match data f}"
  then have "occurs offer_match data f" by simp
  then obtain p kvs k v facts where
    o: "descend (\<lambda>k v. offer_match k v \<noteq> None) data p = Some (JObj kvs)"
       "map_of kvs k = Some v" "offer_match k v = Some facts" "f \<in> set facts"
    by (rule occursE)
  from o(3) have s: "offer_stop k v" by (simp add: offer_match_def split: if_splits)
  then obtain d where d: "k = ''offerRating''" "v = JObj d"
    by (auto simp: offer_stop_def is_dict_iff)
  from o(3,4) s d have
    f: "f = (dict_get d ''originalPrice'', dict_get d ''finalPrice'')"
       "truthy (dict_get d ''originalPrice'') \<or> truthy (dict_get d ''finalPrice'')"
    by (auto simp: offer_match_def truthy_py_or split: if_splits)
  from o(1)[unfolded offer_stop_match] o(2)[unfolded d] f
  show "f \<in> reached_offers data" unfolding reached_offers_def by blast
qed

lemma reached_upgrades_occurs:
  "reached_upgrades pystr data = {f. occurs (upgrade_match pystr) data f}"
proof (intro set_eqI iffI)
  fix f assume "f \<in> reached_upgrades pystr data"
  then obtain p kvs k v u where
    r: "f = upgrade_of pystr u"
       "descend upgrade_stop data p = Some (JObj kvs)"
       "upgrade_key k" "map_of kvs k = Some v"
       "v = JObj u \<or> (\<exists>xs. v = JArr xs \<and> JObj u \<in> set xs)"
    unfolding reached_upgrades_def by blast
  have "\<exists>facts. upgrade_match pystr k v = Some facts \<and> f \<in> set facts"
  proof (cases "v = JObj u")
    case True
    then show ?thesis using r(1,3) by (simp add: upgrade_match_def upgrade_stop_def)
  next
    case False
    with r(5) obtain xs where xs: "v = JArr xs" "JObj u \<in> set xs" by blast
    then have "JObj u \<in> set (filter is_dict xs)" by simp
    then have "(\<lambda>x. upgrade_of pystr (items_of x)) (JObj u)
        \<in> (\<lambda>x. upgrade_of pystr (items_of x)) ` set (filter is_dict xs)"
      by (rule imageI)
    then show ?thesis using r(1,3) xs(1) by (simp add: upgrade_match_def upgrade_stop_def)
  qed
  then obtain facts where m: "upgrade_match pystr k v = Some facts" "f \<in> set facts" by blast
  have "occurs (upgrade_match pystr) data f"
    using r(2)[folded upgrade_stop_match[of pystr]] r(4) m by (rule occursI)
  then show "f \<in> {f. occurs (upgrade_match pystr) data f}" by simp
next
  fix f assume "f \<in> {f. occurs (upgrade_match pystr) data f}"
  then have "occurs (upgrade_match pystr) data f" by simp
  then obtain p kvs k v facts where
    o: "descend (\<lambda>k v. upgrade_match pystr k v \<noteq> None) data p = Some (JObj kvs)"
       "map_of kvs k = Some v" "upgrade_match pystr k v = Some facts" "f \<in> set facts"
    by (rule occursE)
  from o(3) have s: "upgrade_key k"
    by (simp add: upgrade_match_def upgrade_stop_def split: if_splits)
  have "\<exists>u. f = upgrade_of pystr u \<and> (v = JObj u \<or> (\<exists>xs. v = JArr xs \<and> JObj u \<in> set xs))"
  proof (cases v)
    case (JArr xs)
    with o(3,4) s obtain x where "x \<in> set xs" "is_dict x" "f = upgrade_of pystr (items_of x)"
      by (auto simp: upgrade_match_def upgrade_stop_def)
    then show ?thesis using JArr by (auto simp: is_dict_iff)
  next
    case (JObj u)
    with o(3,4) s show ?thesis by (auto simp: upgrade_match_def upgrade_stop_def)
  qed (use o(3,4) s in \<open>auto simp: upgrade_match_def upgrade_stop_def\<close>)
  then obtain u where "f = upgrade_of pystr u"
      "v = JObj u \<or> (\<exists>xs. v = JArr xs \<and> JObj u \<in> set xs)" by blast
  with o(1)[unfolded upgrade_stop_match] o(2) s
  show "f \<in> reached_upgrades pystr data" unfolding reached_upgrades_def by blast
qed

lemma reached_names_occurs: "reached_names data = {f. occurs name_match data f}"
proof (intro set_eqI iffI)
  fix f assume "f \<in> reached_names data"
  then obtain p kvs k v d where
    r: "f = dict_get d ''name''"
       "descend name_stop data p = Some (JObj kvs)"
       "map_of kvs k = Some v" "dict_has d ''name''"
       "(product_key k \<and> v = JObj d) \<or> (k = ''results'' \<and> (\<exists>xs. v = JArr xs \<and> JObj d \<in> set xs))"
    unfolding reached_names_def by blast
  have "\<exists>facts. name_match k v = Some facts \<and> f \<in> set facts"
  proof (cases "product_key k \<and> v = JObj d")
    case True
    then show ?thesis using r(1,4) by (auto simp: name_match_def name_stop_def product_key_def)
  next
    case False
    with r(5) obtain xs where xs: "k = ''results''" "v = JArr xs" "JObj d \<in> set xs" by blast
    then have "JObj d \<in> set (filter (\<lambda>r. is_dict r \<and> dict_has (items_of r) ''name'') xs)"
      using r(4) by simp
    then have "(\<lambda>r. dict_get (items_of r) ''name'') (JObj d)
        \<in> (\<lambda>r. dict_get (items_of r) ''name'')
            ` set (filter (\<lambda>r. is_dict r \<and> dict_has (items_of r) ''name'') xs)"
      by (rule imageI)
    then show ?thesis using r(1) xs(1,2) by (simp add: name_match_def name_stop_def)
  qed
  then obtain facts where m: "name_match k v = Some facts" "f \<in> set facts" by blast
  have "occurs name_match data f"
    using r(2)[folded name_stop_match] r(3) m by (rule occursI)
  then show "f \<in> {f. occurs name_match data f}" by simp
next
  fix f assume "f \<in> {f. occurs name_match data f}"
  then have "occurs name_match data f" by simp
  then obtain p kvs k v facts where
    o: "descend (\<lambda>k v. name_match k v \<noteq> None) data p = Some (JObj kvs)"
       "map_of kvs k = Some v" "name_match k v = Some facts" "f \<in> set facts"
    by (rule occursE)
  from o(3) have s: "name_stop k v" by (simp add: name_match_def split: if_splits)
  have "\<exists>d. f = dict_get d ''name'' \<and> dict_has d ''name''
      \<and> ((product_key k \<and> v = JObj d) \<or> (k = ''results'' \<and> (\<exists>xs. v = JArr xs \<and> JObj d \<in> set xs)))"
  proof (cases "k = ''results'' \<and> is_list v")
    case True
    then obtain xs where xs: "v = JArr xs" by (auto simp: is_list_iff)
    with o(3,4) s True obtain x where
      "x \<in> set xs" "is_dict x" "dict_has (items_of x) ''name''" "f = dict_get (items_of x) ''name''"
      by (auto simp: name_match_def)
    then show ?thesis using True xs by (auto simp: is_dict_iff)
  next
    case False
    with s have pk: "product_key k" "is_dict v" by (auto simp: name_stop_def)
    then obtain d where d: "v = JObj d" by (auto simp: is_dict_iff)
    from o(3,4) s False d have "dict_has d ''name''" "f = dict_get d ''name''"
      by (auto simp: name_match_def split: if_splits)
    then show ?thesis using pk(1) d by blast
  qed
  then obtain d where "f = dict_get d ''name''" "dict_has d ''name''"
      "(product_key k \<and> v = JObj d) \<or> (k = ''results'' \<and> (\<exists>xs. v = JArr xs \<and> JObj d \<in> set xs))"
    by blast
  with o(1)[unfolded name_stop_match] o(2)
  show "f \<in> reached_names data" unfolding reached_names_def by blast
qed

lemma reached_offers_walk:
  "wf_json data \<Longrightarrow> reached_offers data = set (walk offer_match data [])"
  by (simp add: reached_offers_occurs walk_set)

lemma reached_upgrades_walk:
  "wf_json data \<Longrightarrow> reached_upgrades pystr data = set (walk (upgrade_match pystr) data [])"
  by (simp add: reached_upgrades_occurs walk_set)

lemma reached_names_walk:
  "wf_json data \<Longrightarrow> reached_names data = set (walk name_match data [])"
  by (simp add: reached_names_occurs walk_set)

subsection \<open>The extractors when the stack suffices, and when it does not\<close>

lemma extract_offer_rating_walk:
  "depth v < n \<Longrightarrow> extract_offer_rating n v acc = (walk offer_match v acc, None)"
  "depth_items kvs \<le> n \<Longrightarrow> offer_rating_items n kvs acc = (walk_items offer_match kvs acc, None)"
  "depth_elems xs \<le> n \<Longrightarrow> offer_rating_elems n xs acc = (walk_elems offer_match xs acc, None)"
  by (induct n v acc and n kvs acc and n xs acc
       rule: extract_offer_rating_offer_rating_items_offer_rating_elems.induct)
     (simp_all add: offer_match_def offer_stop_def offer_key_def Let_def)

lemma extract_upgrade_from_walk:
  "depth v < n \<Longrightarrow> extract_upgrade_from pystr n v acc = (walk (upgrade_match pystr) v acc, None)"
  "depth_items kvs \<le> n \<Longrightarrow>
     upgrade_from_items pystr n kvs acc = (walk_items (upgrade_match pystr) kvs acc, None)"
  "depth_elems xs \<le> n \<Longrightarrow>
     upgrade_from_elems pystr n xs acc = (walk_elems (upgrade_match pystr) xs acc, None)"
  by (induct pystr n v acc and pystr n kvs acc and pystr n xs acc
       rule: extract_upgrade_from_upgrade_from_items_upgrade_from_elems.induct)
     (simp_all add: upgrade_match_def upgrade_stop_def upgrade_entries_closed)

lemma extract_asset_name_walk:
  "depth v < n \<Longrightarrow> extract_asset_name n v acc = (walk name_match v acc, None)"
  "depth_items kvs \<le> n \<Longrightarrow> asset_name_items n kvs acc = (walk_items name_match kvs acc, None)"
  "depth_elems xs \<le> n \<Longrightarrow> asset_name_elems n xs acc = (walk_elems name_match xs acc, None)"
  by (induct n v acc and n kvs acc and n xs acc
       rule: extract_asset_name_asset_name_items_asset_name_elems.induct)
     (simp_all add: name_match_def name_stop_def results_key_def result_names_closed)





section \<open>Lemmas: exceptions in the extractors and the handler\<close>





subsection \<open>The handler\<close>

lemma handler_body_accepted:
  assumes "all_headers r = Inr hs"
    and "py_in ''application/json'' (content_type hs)"
    and "json_body r = Inr data"
    and "dumps data = Inr ser"
    and "list_ex (\<lambda>k. py_in k ser) wanted_keys"
    and "depth data < frames"
  shows "handler_body pystr dumps frames r fa =
      (\<lparr>found_prices = walk offer_match data (found_prices fa),
        upgrade_from = walk (upgrade_match pystr) data (upgrade_from fa),
        asset_names = walk name_match data (asset_names fa)\<rparr>, None)"
  using assms
  by (simp add: handler_body_def extract_offer_rating_walk extract_upgrade_from_walk
      extract_asset_name_walk)







lemma depth_nested: "depth (nested n v) = n + depth v"
  by (induction n) simp_all







section \<open>Lemmas: the collector loop\<close>

lemma collect_loop_full:
  "full_page goto b ps n \<Longrightarrow>
   collect_loop goto b ps n al vis =
   collect_loop goto b ps (Suc n)
     (al \<union> page_links_of (projr (goto (page_url b n))) {}) (vis @ [page_url b n])"
  by (subst collect_loop.simps) (auto simp: full_page_def Let_def split: sum.splits)

lemma collect_loop_not_full:
  "\<not> full_page goto b ps n \<Longrightarrow>
   \<exists>res. collect_loop goto b ps n al vis = Some (vis @ [page_url b n], res)
     \<and> (isl res \<longleftrightarrow> \<not> short_page goto b ps n)"
  by (subst collect_loop.simps) (auto simp: full_page_def short_page_def Let_def split: sum.splits)

lemma collect_loop_stops:
  assumes "\<forall>k. m \<le> k \<and> k < n \<longrightarrow> full_page goto b ps k" and "\<not> full_page goto b ps n" and "m \<le> n"
  shows "\<exists>res. collect_loop goto b ps m al vis = Some (vis @ map (page_url b) [m..<Suc n], res)
     \<and> (isl res \<longleftrightarrow> \<not> short_page goto b ps n)"
  using assms
proof (induction "n - m" arbitrary: m al vis)
  case 0
  then have "m = n" by simp
  then show ?case using collect_loop_not_full[OF 0(3), of al vis] by simp
next
  case (Suc d)
  then have lt: "m < n" by simp
  with Suc.prems have f: "full_page goto b ps m" by simp
  have "d = n - Suc m" using Suc(2) by simp
  from Suc(1)[OF this, of "al \<union> page_links_of (projr (goto (page_url b m))) {}" "vis @ [page_url b m]"]
    Suc.prems lt
  obtain res where
    "collect_loop goto b ps (Suc m) (al \<union> page_links_of (projr (goto (page_url b m))) {})
       (vis @ [page_url b m]) = Some ((vis @ [page_url b m]) @ map (page_url b) [Suc m..<Suc n], res)"
    "isl res \<longleftrightarrow> \<not> short_page goto b ps n"
    by auto
  moreover have "[m..<Suc n] = m # [Suc m..<Suc n]" using lt by (simp add: upt_rec)
  ultimately show ?case using collect_loop_full[OF f, of al vis] by simp
qed

lemma collect_loop_returns:
  assumes "collect_loop goto b ps m al vis = Some r"
  shows "\<exists>n\<ge>m. \<not> full_page goto b ps n"
proof (rule collect_loop.raw_induct[where P = "\<lambda>goto b ps m al vis r. \<exists>n\<ge>m. \<not> full_page goto b ps n",
      OF _ assms])
  fix cl :: "(string \<Rightarrow> error + string option list) \<Rightarrow> string \<Rightarrow> nat \<Rightarrow> nat \<Rightarrow> string set
     \<Rightarrow> string list \<Rightarrow> (string list \<times> (error + string set)) option"
  fix goto b ps m al vis r
  assume IH: "\<And>goto b ps m al vis r. cl goto b ps m al vis = Some r \<Longrightarrow> \<exists>n\<ge>m. \<not> full_page goto b ps n"
  assume body: "(let url = page_url b m
        in case goto url of Inl e \<Rightarrow> Some (vis @ [url], Inl e)
           | Inr asset_items \<Rightarrow>
               let page_links = page_links_of asset_items {};
                   num_assets = card page_links
               in if num_assets = 0
                  then Some (vis @ [url], Inr al)
                  else if num_assets < ps
                       then Some (vis @ [url], Inr (al \<union> page_links))
                       else cl goto b ps (m + 1) (al \<union> page_links) (vis @ [url])) = Some r"
  show "\<exists>n\<ge>m. \<not> full_page goto b ps n"
  proof (cases "full_page goto b ps m")
    case False
    then show ?thesis by blast
  next
    case True
    with body obtain al' vis' where "cl goto b ps (m + 1) al' vis' = Some r"
      by (auto simp: full_page_def Let_def split: sum.splits if_splits)
    from IH[OF this] obtain n where "n \<ge> m + 1" "\<not> full_page goto b ps n" by blast
    then show ?thesis by (intro exI[of _ n]) simp
  qed
qed

lemma collector_stops_iff:
  "((\<exists>all_links. collect_all_assets_by_url goto base_url page_size
        = Some (map (page_url base_url) [1..<Suc n], Inr all_links)) \<and> 1 \<le> n)
    = first_short goto base_url page_size n"
proof
  assume "first_short goto base_url page_size n"
  then have n: "1 \<le> n" and sh: "short_page goto base_url page_size n"
    and fu: "\<forall>k. 1 \<le> k \<and> k < n \<longrightarrow> full_page goto base_url page_size k"
    by (simp_all add: first_short_def)
  from sh have nf: "\<not> full_page goto base_url page_size n"
    by (auto simp: short_page_def full_page_def split: sum.splits)
  from collect_loop_stops[OF fu nf n, of "{}" "[]"] sh obtain res where
    "collect_loop goto base_url page_size 1 {} [] = Some (map (page_url base_url) [1..<Suc n], res)"
    "\<not> isl res" by auto
  then show "(\<exists>all_links. collect_all_assets_by_url goto base_url page_size
        = Some (map (page_url base_url) [1..<Suc n], Inr all_links)) \<and> 1 \<le> n"
    using n by (cases res) (simp_all add: collect_all_assets_by_url_def)
next
  assume a: "(\<exists>all_links. collect_all_assets_by_url goto base_url page_size
        = Some (map (page_url base_url) [1..<Suc n], Inr all_links)) \<and> 1 \<le> n"
  then obtain links where
    cl: "collect_loop goto base_url page_size 1 {} [] = Some (map (page_url base_url) [1..<Suc n], Inr links)"
    by (auto simp: collect_all_assets_by_url_def split: option.splits sum.splits)
  from collect_loop_returns[OF cl] have ex: "\<exists>k. 1 \<le> k \<and> \<not> full_page goto base_url page_size k" by blast
  define j where "j = (LEAST k. 1 \<le> k \<and> \<not> full_page goto base_url page_size k)"
  have j: "1 \<le> j" "\<not> full_page goto base_url page_size j"
    using LeastI_ex[OF ex] by (simp_all add: j_def)
  have below: "\<forall>k. 1 \<le> k \<and> k < j \<longrightarrow> full_page goto base_url page_size k"
  proof (intro allI impI)
    fix k
    assume k: "1 \<le> k \<and> k < j"
    then have "k < (LEAST k. 1 \<le> k \<and> \<not> full_page goto base_url page_size k)"
      unfolding j_def by blast
    from not_less_Least[OF this] k show "full_page goto base_url page_size k" by blast
  qed
  from collect_loop_stops[OF below j(2) j(1), of "{}" "[]"] obtain res where
    res: "collect_loop goto base_url page_size 1 {} [] = Some (map (page_url base_url) [1..<Suc j], res)"
      "isl res \<longleftrightarrow> \<not> short_page goto base_url page_size j" by auto
  from res(1) cl have "map (page_url base_url) [1..<Suc j] = map (page_url base_url) [1..<Suc n]"
    and r: "res = Inr links" by simp_all
  then have "length (map (page_url base_url) [1..<Suc j]) = length (map (page_url base_url) [1..<Suc n])"
    by simp
  then have "j = n" by (simp del: upt_Suc)
  then show "first_short goto base_url page_size n"
    using j below res(2) r by (simp add: first_short_def)
qed

section \<open>Lemmas: what the writers leave in the files\<close>

lemma contents_append_to [simp]: "contents (append_to f xs) = contents f @ xs"
  by (simp add: append_to_def contents_def)

lemma save_txt_line_files [simp]:
  "contents (output_txt (save_txt_line t fs)) = contents (output_txt fs) @ t @ [LF]"
  "output_csv (save_txt_line t fs) = output_csv fs"
  "progress_file (save_txt_line t fs) = progress_file fs"
  "publishers_txt (save_txt_line t fs) = publishers_txt fs"
  by (simp_all add: save_txt_line_def)

lemma save_csv_row_files [simp]:
  "contents (output_csv (save_csv_row r fs)) = contents (output_csv fs) @ [r]"
  "output_txt (save_csv_row r fs) = output_txt fs"
  "progress_file (save_csv_row r fs) = progress_file fs"
  "publishers_txt (save_csv_row r fs) = publishers_txt fs"
  by (simp_all add: save_csv_row_def)

lemma mark_processed_files [simp]:
  "contents (progress_file (mark_processed l fs)) = contents (progress_file fs) @ l @ [LF]"
  "output_txt (mark_processed l fs) = output_txt fs"
  "output_csv (mark_processed l fs) = output_csv fs"
  "publishers_txt (mark_processed l fs) = publishers_txt fs"
  by (simp_all add: mark_processed_def)

lemma write_upgrades_files:
  "contents (output_csv (write_upgrades c orig final ups fs))
     = contents (output_csv fs) @ map (upgrade_row c orig final) ups"
  "contents (output_txt (write_upgrades c orig final ups fs))
     = contents (output_txt fs) @ text_of_lines (map (upgrade_line c orig final) ups)"
  "progress_file (write_upgrades c orig final ups fs) = progress_file fs"
  "publishers_txt (write_upgrades c orig final ups fs) = publishers_txt fs"
  by (induction ups arbitrary: fs) (simp_all add: text_of_lines_def)

lemma write_prices_files:
  "contents (output_csv (write_prices c ups ps fs))
     = contents (output_csv fs) @ concat (map (rows_of_pair c ups) ps)"
  "contents (output_txt (write_prices c ups ps fs))
     = contents (output_txt fs) @ text_of_lines (concat (map (lines_of_pair c ups) ps))"
  "progress_file (write_prices c ups ps fs) = progress_file fs"
  "publishers_txt (write_prices c ups ps fs) = publishers_txt fs"
  by (induction ps arbitrary: fs)
     (auto simp: write_upgrades_files rows_of_pair_def lines_of_pair_def text_of_lines_def)

lemma write_asset_error:
  "unique_prices_of ord (found_prices fa) = Inl e \<Longrightarrow>
   write_asset pystr ord pn pu (link, fa) fs = (fs, Some e)"
  by (simp add: write_asset_def)

lemma write_asset_files:
  assumes "unique_prices_of ord (found_prices fa) = Inr unique"
  shows "snd (write_asset pystr ord pn pu (link, fa) fs) = None"
    and "contents (output_csv (fst (write_asset pystr ord pn pu (link, fa) fs)))
          = contents (output_csv fs) @ asset_rows (make_ctx pystr pn pu link fa) (upgrade_from fa) unique"
    and "contents (output_txt (fst (write_asset pystr ord pn pu (link, fa) fs)))
          = contents (output_txt fs)
            @ text_of_lines (asset_lines (make_ctx pystr pn pu link fa) (upgrade_from fa) unique)"
    and "contents (progress_file (fst (write_asset pystr ord pn pu (link, fa) fs)))
          = contents (progress_file fs) @ link @ [LF]"
    and "publishers_txt (fst (write_asset pystr ord pn pu (link, fa) fs)) = publishers_txt fs"
  using assms(1)
  by (simp_all add: write_asset_def Let_def write_prices_files asset_rows_def asset_lines_def
      text_of_lines_def)

lemma write_asset_cases:
  "(\<exists>e. unique_prices_of ord (found_prices fa) = Inl e
        \<and> write_asset pystr ord pn pu (link, fa) fs = (fs, Some e))
   \<or> (\<exists>unique. unique_prices_of ord (found_prices fa) = Inr unique
        \<and> snd (write_asset pystr ord pn pu (link, fa) fs) = None)"
  by (cases "unique_prices_of ord (found_prices fa)") (simp_all add: write_asset_def Let_def)

lemma split_on_nonempty: "split_on sep s \<noteq> []"
  by (induction s) (auto split: list.splits)

lemma split_on_pieces:
  "sep \<notin> set (last (split_on sep s))
   \<and> (sep \<in> set s \<longrightarrow> (\<exists>pre. s = pre @ sep # last (split_on sep s)) \<and> 2 \<le> length (split_on sep s))
   \<and> (sep \<notin> set s \<longrightarrow> split_on sep s = [s])"
proof (induction s)
  case Nil
  then show ?case by simp
next
  case step: (Cons c s)
  show ?case
  proof (cases "c = sep")
    case True
    have l: "last (split_on sep (c # s)) = last (split_on sep s)"
      "2 \<le> length (split_on sep (c # s))"
      using True split_on_nonempty[of sep s] by (simp_all add: Suc_le_eq)
    have "\<exists>pre. c # s = pre @ sep # last (split_on sep s)"
    proof (cases "sep \<in> set s")
      case True
      with step obtain pre where "s = pre @ sep # last (split_on sep s)" by auto
      then have "c # s = (c # pre) @ sep # last (split_on sep s)" by simp
      then show ?thesis by blast
    next
      case False
      with step have "last (split_on sep s) = s" by simp
      then have "c # s = [] @ sep # last (split_on sep s)" using \<open>c = sep\<close> by simp
      then show ?thesis by blast
    qed
    then show ?thesis using step True l by simp
  next
    case False
    obtain p ps where pps: "split_on sep s = p # ps"
      using split_on_nonempty[of sep s] by (cases "split_on sep s") auto
    then have r: "split_on sep (c # s) = (c # p) # ps" using False by simp
    show ?thesis
    proof (cases ps)
      case Nil
      with pps step have ns: "sep \<notin> set s" by auto
      with step pps Nil have "p = s" by simp
      then show ?thesis using r Nil ns False by simp
    next
      case (Cons q qs)
      with pps step have m: "sep \<in> set s" by auto
      with step obtain pre where "s = pre @ sep # last (split_on sep s)" by auto
      then have "c # s = (c # pre) @ sep # last (split_on sep s)" by simp
      then have "\<exists>pre. c # s = pre @ sep # last (split_on sep s)" by blast
      moreover have "last (split_on sep (c # s)) = last (split_on sep s)"
        using r pps Cons by simp
      moreover have "2 \<le> length (split_on sep (c # s))" using r Cons by simp
      ultimately show ?thesis using step m by simp
    qed
  qed
qed


section \<open>Lemmas: set semantics of the price pairs\<close>

lemma py_eq_refl: "py_eq a a"
  by (cases a) (simp_all add: py_eq_def)

lemma py_eq_sym: "py_eq a b = py_eq b a"
  by (auto simp: py_eq_def split: option.splits)

lemma pair_eq_refl: "pair_eq p p"
  by (simp add: pair_eq_def py_eq_refl)

lemma pair_eq_sym: "pair_eq p q = pair_eq q p"
  by (simp add: pair_eq_def py_eq_sym[of "fst p"] py_eq_sym[of "snd p"])

lemma set_add_inv:
  assumes "py_distinct s"
  shows "py_distinct (set_add s p)"
    and "set (set_add s p) \<subseteq> insert p (set s)"
    and "set s \<subseteq> set (set_add s p)"
    and "\<exists>q\<in>set (set_add s p). pair_eq p q"
proof -
  show "py_distinct (set_add s p)"
  proof (cases "list_ex (pair_eq p) s")
    case True
    then show ?thesis using assms by (simp add: set_add_def)
  next
    case False
    then have n: "\<forall>q\<in>set s. \<not> pair_eq p q" by (simp add: list_ex_iff)
    then have n': "\<forall>q\<in>set s. \<not> pair_eq q p" using pair_eq_sym by blast
    from n have "p \<notin> set s" using pair_eq_refl by blast
    then show ?thesis using assms False n n'
      by (auto simp: set_add_def py_distinct_def)
  qed
  show "set (set_add s p) \<subseteq> insert p (set s)" "set s \<subseteq> set (set_add s p)"
    by (auto simp: set_add_def)
  show "\<exists>q\<in>set (set_add s p). pair_eq p q"
    using pair_eq_refl by (auto simp: set_add_def list_ex_iff)
qed

lemma foldl_set_add_inv:
  assumes "py_distinct s"
  shows "py_distinct (foldl set_add s ps)
       \<and> set (foldl set_add s ps) \<subseteq> set s \<union> set ps
       \<and> set s \<subseteq> set (foldl set_add s ps)
       \<and> (\<forall>p\<in>set ps. \<exists>q\<in>set (foldl set_add s ps). pair_eq p q)"
  using assms
proof (induction ps arbitrary: s)
  case Nil
  then show ?case by simp
next
  case (Cons p ps)
  let ?r = "foldl set_add (set_add s p) ps"
  note a = set_add_inv[OF Cons.prems, of p]
  from Cons.IH[OF a(1)] have ih:
    "py_distinct ?r"
    "set ?r \<subseteq> set (set_add s p) \<union> set ps"
    "set (set_add s p) \<subseteq> set ?r"
    "\<forall>p\<in>set ps. \<exists>q\<in>set ?r. pair_eq p q"
    by blast+
  have r: "foldl set_add s (p # ps) = ?r" by simp
  have c1: "set ?r \<subseteq> set s \<union> set (p # ps)"
  proof
    fix x assume "x \<in> set ?r"
    with ih(2) have "x \<in> set (set_add s p) \<or> x \<in> set ps" by blast
    with a(2) show "x \<in> set s \<union> set (p # ps)" by auto
  qed
  have c2: "set s \<subseteq> set ?r" using a(3) ih(3) by (rule subset_trans)
  have c3: "\<forall>x\<in>set (p # ps). \<exists>q\<in>set ?r. pair_eq x q"
  proof
    fix x assume "x \<in> set (p # ps)"
    then consider "x = p" | "x \<in> set ps" by auto
    then show "\<exists>q\<in>set ?r. pair_eq x q"
    proof cases
      case 1
      from a(4) obtain q where "q \<in> set (set_add s p)" "pair_eq p q" by blast
      with ih(3) 1 show ?thesis by blast
    next
      case 2
      with ih(4) show ?thesis by blast
    qed
  qed
  show ?case unfolding r using ih(1) c1 c2 c3 by (intro conjI)
qed

lemma py_set_dedup:
  assumes "py_set found = Inr s"
  shows "py_distinct s \<and> covers s found"
proof -
  from assms have s: "s = foldl set_add [] found"
    by (simp add: py_set_def split: if_splits)
  have "py_distinct []" by (simp add: py_distinct_def)
  from foldl_set_add_inv[OF this, of found] show ?thesis
    unfolding s covers_def by simp
qed

lemma py_distinct_perm:
  "mset xs = mset ys \<Longrightarrow> py_distinct ys \<Longrightarrow> py_distinct xs"
  using mset_eq_setD[of xs ys] mset_eq_imp_distinct_iff[of xs ys]
  by (simp add: py_distinct_def)

lemma covers_perm:
  "mset xs = mset ys \<Longrightarrow> covers ys found \<Longrightarrow> covers xs found"
  using mset_eq_setD[of xs ys] by (simp add: covers_def)

lemma unique_prices_dedup:
  assumes "unique_prices_of ord found = Inr unique"
    and "mset (ord (foldl set_add [] found)) = mset (foldl set_add [] found)"
  shows "py_distinct unique \<and> covers unique found"
proof (cases "found = []")
  case True
  then show ?thesis using assms(1)
    by (auto simp: unique_prices_of_def py_distinct_def covers_def)
next
  case False
  with assms(1) obtain s where s: "py_set found = Inr s" "unique = ord s"
    by (auto simp: unique_prices_of_def split: sum.splits)
  then have s': "s = foldl set_add [] found" by (auto simp: py_set_def split: if_splits)
  from py_set_dedup[OF s(1)] assms(2) s' s(2) show ?thesis
    using py_distinct_perm[of unique s] covers_perm[of unique s found] by simp
qed

lemma unique_prices_nonempty:
  assumes "unique_prices_of ord found = Inr unique" and "found \<noteq> []"
    and "mset (ord (foldl set_add [] found)) = mset (foldl set_add [] found)"
  shows "unique \<noteq> []"
proof -
  from unique_prices_dedup[OF assms(1,3)] have "covers unique found" by simp
  with assms(2) show ?thesis by (cases found) (auto simp: covers_def)
qed


section \<open>Lemmas: shape of the rows of one asset\<close>

lemma price_cols_rows_of_pair:
  "map price_cols (rows_of_pair c ups p)
     = replicate (max 1 (length ups)) (na (fst p), na (snd p))"
proof (cases "ups = []")
  case True
  then show ?thesis by (simp add: rows_of_pair_def price_cols_def price_row_def)
next
  case False
  have "map price_cols (map (upgrade_row c (fst p) (snd p)) ups)
      = map (\<lambda>u. (na (fst p), na (snd p))) ups"
    by (simp add: price_cols_def upgrade_row_def)
  also have "\<dots> = replicate (length ups) (na (fst p), na (snd p))"
    by (simp add: map_replicate_const)
  also have "length ups = max 1 (length ups)" using False by (cases ups) simp_all
  finally show ?thesis using False by (simp add: rows_of_pair_def)
qed


lemma hd_rows_of_pair:
  "list_all (\<lambda>row. length row = 8 \<and> hd row = c_asset_name c) (rows_of_pair c ups p)"
  by (simp add: rows_of_pair_def list_all_iff upgrade_row_def price_row_def)

lemma asset_rows_shape:
  "asset_rows c ups unique \<noteq> []
   \<and> list_all (\<lambda>row. length row = 8 \<and> hd row = c_asset_name c) (asset_rows c ups unique)"
proof (cases unique)
  case Nil
  then show ?thesis by (simp add: asset_rows_def no_offer_row_def)
next
  case (Cons p ps)
  have "rows_of_pair c ups p \<noteq> []" by (simp add: rows_of_pair_def)
  moreover have "list_all (\<lambda>row. length row = 8 \<and> hd row = c_asset_name c)
      (concat (map (rows_of_pair c ups) unique))"
    using hd_rows_of_pair[of c ups] by (simp add: list_all_iff)
  ultimately show ?thesis using Cons by (simp add: asset_rows_def)
qed


lemma lines_of_pair_prefix:
  "list_all (prefix (py_str (c_pystr c) (c_asset_name c) @ '' | '')) (lines_of_pair c ups p)"
  by (simp add: lines_of_pair_def list_all_iff upgrade_line_def price_line_def)

lemma asset_lines_prefix:
  "list_all (prefix (py_str (c_pystr c) (c_asset_name c) @ '' | '')) (asset_lines c ups unique)"
  using lines_of_pair_prefix[of c ups]
  by (simp add: asset_lines_def list_all_iff no_offer_line_def)


section \<open>Lemmas: the CSV file through the main routine\<close>

lemma csv_grows_refl: "csv_grows P fs fs"
  unfolding csv_grows_def by (rule exI[of _ "[]"]) simp

lemma csv_grows_trans:
  assumes "csv_grows P a b" and "csv_grows P b c"
  shows "csv_grows P a c"
proof -
  from assms obtain n1 n2 where
    "contents (output_csv b) = contents (output_csv a) @ n1" "list_all P n1"
    "contents (output_csv c) = contents (output_csv b) @ n2" "list_all P n2"
    unfolding csv_grows_def by blast
  then have "contents (output_csv c) = contents (output_csv a) @ (n1 @ n2) \<and> list_all P (n1 @ n2)"
    by simp
  then show ?thesis unfolding csv_grows_def by blast
qed

lemma csv_grows_mono:
  assumes "csv_grows P a b" and "\<And>row. P row \<Longrightarrow> Q row"
  shows "csv_grows Q a b"
proof -
  from assms(1) obtain new where
    n: "contents (output_csv b) = contents (output_csv a) @ new" "list_all P new"
    unfolding csv_grows_def by blast
  from n(2) assms(2) have "list_all Q new" by (simp add: list_all_iff)
  with n(1) show ?thesis unfolding csv_grows_def by blast
qed

lemma column_eight:
  "column ''Asset Name'' [a, b, c, d, e, f, g, h] = a"
  "column ''Original Price'' [a, b, c, d, e, f, g, h] = b"
  "column ''Final Price'' [a, b, c, d, e, f, g, h] = c"
  "column ''Upgrade From'' [a, b, c, d, e, f, g, h] = d"
  "column ''Upgrade URL'' [a, b, c, d, e, f, g, h] = e"
  "column ''Asset URL'' [a, b, c, d, e, f, g, h] = f"
  "column ''Publisher Name'' [a, b, c, d, e, f, g, h] = g"
  "column ''Publisher Page'' [a, b, c, d, e, f, g, h] = h"
  by (simp_all add: column_def HEADER_def)

lemma data_row_upgrade:
  assumes "(orig, final) \<in> set (found_prices fa)" and "u \<in> set (upgrade_from fa)"
  shows "data_row pystr (pn, pu) link fa (upgrade_row (make_ctx pystr pn pu link fa) orig final u)"
proof -
  from assms have ne: "found_prices fa \<noteq> []" "upgrade_from fa \<noteq> []" by auto
  have p: "list_ex (\<lambda>p. na orig = na (fst p) \<and> na final = na (snd p)) (found_prices fa)"
    unfolding list_ex_iff using assms(1) by (intro bexI[of _ "(orig, final)"]) simp_all
  have q: "list_ex (\<lambda>v. fst u = fst v
      \<and> JStr (if snd u \<noteq> [] then wrap_hyperlink pystr (snd u) (fst u) else [])
        = JStr (if snd v \<noteq> [] then wrap_hyperlink pystr (snd v) (fst v) else []))
      (upgrade_from fa)"
    unfolding list_ex_iff using assms(2) by (intro bexI[of _ u]) simp_all
  show ?thesis
    unfolding data_row_def upgrade_row_def column_eight
    using ne p q by (simp add: make_ctx_def split del: if_split cong: if_cong)
qed

lemma data_row_price:
  assumes "(orig, final) \<in> set (found_prices fa)" and "upgrade_from fa = []"
  shows "data_row pystr (pn, pu) link fa (price_row (make_ctx pystr pn pu link fa) orig final)"
proof -
  from assms have ne: "found_prices fa \<noteq> []" by auto
  have p: "list_ex (\<lambda>p. na orig = na (fst p) \<and> na final = na (snd p)) (found_prices fa)"
    unfolding list_ex_iff using assms(1) by (intro bexI[of _ "(orig, final)"]) simp_all
  show ?thesis
    unfolding data_row_def price_row_def column_eight
    using ne p assms(2) by (simp add: make_ctx_def)
qed

lemma data_row_no_offer:
  assumes "found_prices fa = []"
  shows "data_row pystr (pn, pu) link fa (no_offer_row (make_ctx pystr pn pu link fa))"
  unfolding data_row_def no_offer_row_def column_eight
  using assms by (simp add: make_ctx_def)

lemma asset_rows_data_rows:
  assumes "set unique \<subseteq> set (found_prices fa)"
    and "found_prices fa \<noteq> [] \<Longrightarrow> unique \<noteq> []"
  shows "list_all (data_row pystr (pn, pu) link fa)
           (asset_rows (make_ctx pystr pn pu link fa) (upgrade_from fa) unique)"
proof (cases "unique = []")
  case True
  with assms(2) have "found_prices fa = []" by blast
  from data_row_no_offer[OF this] True show ?thesis by (simp add: asset_rows_def)
next
  case False
  have "data_row pystr (pn, pu) link fa row"
    if "p \<in> set unique" and "row \<in> set (rows_of_pair (make_ctx pystr pn pu link fa) (upgrade_from fa) p)"
    for p row
  proof -
    from that(1) assms(1) have m: "(fst p, snd p) \<in> set (found_prices fa)" by auto
    show ?thesis
    proof (cases "upgrade_from fa = []")
      case True
      with that(2) have "row = price_row (make_ctx pystr pn pu link fa) (fst p) (snd p)"
        by (simp add: rows_of_pair_def)
      with data_row_price[OF m True] show ?thesis by simp
    next
      case ne: False
      with that(2) obtain u where "u \<in> set (upgrade_from fa)"
          "row = upgrade_row (make_ctx pystr pn pu link fa) (fst p) (snd p) u"
        by (auto simp: rows_of_pair_def)
      with data_row_upgrade[OF m this(1)] show ?thesis by simp
    qed
  qed
  then show ?thesis using False by (auto simp: asset_rows_def list_all_iff)
qed

lemma csv_grows_write_asset:
  assumes "mset (ord (foldl set_add [] (found_prices fa))) = mset (foldl set_add [] (found_prices fa))"
  shows "csv_grows (data_row pystr (pn, pu) link fa) fs
           (fst (write_asset pystr ord pn pu (link, fa) fs))"
proof -
  from write_asset_cases[of ord fa pystr pn pu link fs] show ?thesis
  proof
    assume "\<exists>e. unique_prices_of ord (found_prices fa) = Inl e
        \<and> write_asset pystr ord pn pu (link, fa) fs = (fs, Some e)"
    then show ?thesis using csv_grows_refl by auto
  next
    assume "\<exists>unique. unique_prices_of ord (found_prices fa) = Inr unique
        \<and> snd (write_asset pystr ord pn pu (link, fa) fs) = None"
    then obtain unique where u: "unique_prices_of ord (found_prices fa) = Inr unique" by blast
    from unique_prices_dedup[OF u assms] have s: "set unique \<subseteq> set (found_prices fa)"
      by (simp add: covers_def)
    have "list_all (data_row pystr (pn, pu) link fa)
        (asset_rows (make_ctx pystr pn pu link fa) (upgrade_from fa) unique)"
      using s unique_prices_nonempty[OF u _ assms] by (rule asset_rows_data_rows)
    with write_asset_files(2)[OF u, of pystr pn pu link fs]
    show ?thesis unfolding csv_grows_def by blast
  qed
qed

lemma process_assets_collected:
  "process_assets env links = Inr results \<Longrightarrow>
   list_all (\<lambda>result. collected env (fst result) = Some (snd result)) results"
proof (induction links arbitrary: results)
  case Nil
  then show ?case by simp
next
  case (Cons link links)
  from Cons.prems obtain responses rest where
    r: "env_visit env link = Inr responses" "process_assets env links = Inr rest"
       "results = (link, foldl (\<lambda>fa r. handle_response (env_pystr env) (env_dumps env)
                                  (env_frames env) r fa) no_facts responses) # rest"
    by (auto split: sum.splits)
  from Cons.IH[OF r(2)] r(1) show ?case unfolding r(3) by (simp add: collected_def)
qed

lemma csv_grows_write_results:
  assumes "\<forall>s. mset (env_set_order env s) = mset s"
    and "(pn, pu) \<in> set publishers"
    and "list_all (\<lambda>result. collected env (fst result) = Some (snd result)) results"
  shows "csv_grows (row_of_run env publishers) fs (fst (write_results env pn pu results fs))"
  using assms(3)
proof (induction results arbitrary: fs)
  case Nil
  show ?case by (simp add: csv_grows_refl)
next
  case (Cons result results)
  obtain link fa where lf: "result = (link, fa)" by (cases result)
  from Cons.prems lf have c: "collected env link = Some fa"
    and rest: "list_all (\<lambda>result. collected env (fst result) = Some (snd result)) results"
    by simp_all
  obtain fs1 e1 where w: "write_asset (env_pystr env) (env_set_order env) pn pu (link, fa) fs = (fs1, e1)"
    by (cases "write_asset (env_pystr env) (env_set_order env) pn pu (link, fa) fs")
  from assms(1) have "mset (env_set_order env (foldl set_add [] (found_prices fa)))
      = mset (foldl set_add [] (found_prices fa))" by blast
  from csv_grows_write_asset[where ord = "env_set_order env" and fa = fa
      and pystr = "env_pystr env" and pn = pn and pu = pu and link = link and fs = fs, OF this] w
  have "csv_grows (data_row (env_pystr env) (pn, pu) link fa) fs fs1" by simp
  then have g1: "csv_grows (row_of_run env publishers) fs fs1"
  proof (rule csv_grows_mono)
    fix row assume "data_row (env_pystr env) (pn, pu) link fa row"
    with assms(2) c show "row_of_run env publishers row"
      unfolding row_of_run_def by blast
  qed
  show ?case
  proof (cases e1)
    case None
    then have "write_results env pn pu (result # results) fs = write_results env pn pu results fs1"
      using w lf by simp
    then show ?thesis using csv_grows_trans[OF g1 Cons.IH[OF rest, of fs1]] by simp
  next
    case (Some e)
    then have "write_results env pn pu (result # results) fs = (fs1, Some e)"
      using w lf by simp
    then show ?thesis using g1 by simp
  qed
qed

lemma csv_grows_run_batches:
  assumes "\<forall>s. mset (env_set_order env s) = mset s"
    and "(pn, pu) \<in> set publishers"
  shows "csv_grows (row_of_run env publishers) fs (fst (run_batches env processed pn pu batches fs))"
proof (induction batches arbitrary: fs)
  case Nil
  show ?case by (simp add: csv_grows_refl)
next
  case (Cons batch batches)
  let ?bl = "filter (\<lambda>l. l \<notin> processed) batch"
  show ?case
  proof (cases "?bl = []")
    case True
    then show ?thesis using Cons[of fs] by simp
  next
    case False
    show ?thesis
    proof (cases "process_assets env ?bl")
      case (Inl e)
      then show ?thesis using False by (simp add: csv_grows_refl)
    next
      case (Inr results)
      obtain fs1 e1 where w: "write_results env pn pu results fs = (fs1, e1)"
        by (cases "write_results env pn pu results fs")
      from csv_grows_write_results[OF assms process_assets_collected[OF Inr], of fs] w
      have g1: "csv_grows (row_of_run env publishers) fs fs1" by simp
      show ?thesis
      proof (cases e1)
        case None
        then have "run_batches env processed pn pu (batch # batches) fs
            = run_batches env processed pn pu batches fs1"
          using w Inr False by simp
        then show ?thesis using csv_grows_trans[OF g1 Cons[of fs1]] by simp
      next
        case (Some e)
        then have "run_batches env processed pn pu (batch # batches) fs = (fs1, Some e)"
          using w Inr False by simp
        then show ?thesis using g1 by simp
      qed
    qed
  qed
qed

lemma csv_grows_run_publisher:
  assumes "run_publisher env processed publisher fs = Some (fs', err)"
    and "\<forall>s. mset (env_set_order env s) = mset s"
    and "publisher \<in> set publishers"
  shows "csv_grows (row_of_run env publishers) fs fs'"
proof (cases "env_goto env (snd publisher)")
  case (Some e)
  with assms(1) show ?thesis by (simp add: run_publisher_def csv_grows_refl)
next
  case None
  show ?thesis
  proof (cases "collect_all_assets_by_url (env_listing env) (snd publisher) PAGE_SIZE")
    case n: None
    with None assms(1) show ?thesis by (simp add: run_publisher_def)
  next
    case (Some r)
    obtain visited res where r: "r = (visited, res)" by (cases r)
    show ?thesis
    proof (cases res)
      case (Inl e)
      with None Some r assms(1) show ?thesis by (simp add: run_publisher_def csv_grows_refl)
    next
      case (Inr all_assets)
      with None Some r assms(1) have
        "run_batches env processed (fst publisher) (snd publisher) (batched all_assets BATCH_SIZE) fs
          = (fs', err)"
        by (simp add: run_publisher_def)
      moreover from assms(3) have "(fst publisher, snd publisher) \<in> set publishers" by simp
      ultimately show ?thesis
        using csv_grows_run_batches[OF assms(2), of "fst publisher" "snd publisher" publishers fs
            processed "batched all_assets BATCH_SIZE"]
        by simp
    qed
  qed
qed

lemma csv_grows_run_publishers:
  assumes "run_publishers env processed ps fs = Some (fs', err)"
    and "\<forall>s. mset (env_set_order env s) = mset s"
    and "set ps \<subseteq> set publishers"
  shows "csv_grows (row_of_run env publishers) fs fs'"
  using assms(1,3)
proof (induction ps arbitrary: fs)
  case Nil
  then show ?case by (simp add: csv_grows_refl)
next
  case (Cons publisher ps)
  from Cons.prems(1) obtain fs1 e1 where r: "run_publisher env processed publisher fs = Some (fs1, e1)"
    by (cases "run_publisher env processed publisher fs") auto
  from Cons.prems(2) have m: "publisher \<in> set publishers" "set ps \<subseteq> set publishers" by simp_all
  note g1 = csv_grows_run_publisher[OF r assms(2) m(1)]
  show ?case
  proof (cases e1)
    case None
    with r Cons.prems(1) have "run_publishers env processed ps fs1 = Some (fs', err)" by simp
    from csv_grows_trans[OF g1 Cons.IH[OF this m(2)]] show ?thesis .
  next
    case (Some e)
    with r Cons.prems(1) have "fs' = fs1" by simp
    with g1 show ?thesis by simp
  qed
qed

lemma load_publishers_total: "\<exists>publishers. load_publishers fs = Inr publishers"
proof (cases "publishers_txt fs")
  case None
  then show ?thesis by (simp add: load_publishers_def)
next
  case (Some c)
  from parse_publishers_closed[of "readlines c" "[]"] obtain ps where
    "parse_publishers (readlines c) [] = Inr ps" by auto
  with Some show ?thesis by (simp add: load_publishers_def)
qed

section \<open>Lemmas: the example runs\<close>

lemma ex_load_publishers:
  "load_publishers dup_publishers_files
     = Inr [DEFAULT_PUBLISHER, DEFAULT_PUBLISHER]"
  by (simp add: load_publishers_def dup_publishers_files_def publisher_line_def split1_def
      strip_def is_space_def DEFAULT_PUBLISHER_def)

lemma ex_collect:
  "collect_all_assets_by_url (env_listing one_asset_env) (snd DEFAULT_PUBLISHER) PAGE_SIZE
     = Some ([page_url (snd DEFAULT_PUBLISHER) 1], Inr [sky_link])"
  apply (simp add: collect_all_assets_by_url_def)
  apply (subst collect_loop.simps)
  apply (simp add: one_asset_env_def PAGE_SIZE_def Let_def sky_link_def)
  done



lemma ex_asset_name: "asset_name_of sky_link [] = JStr ''sky-1''"
  by (simp add: asset_name_of_def sky_link_def)

lemma ex_write_asset:
  "write_asset no_str insertion_order (fst DEFAULT_PUBLISHER) (snd DEFAULT_PUBLISHER)
     (sky_link, no_facts) fs
   = (mark_processed sky_link (save_csv_row sky_row (save_txt_line sky_line fs)), None)"
  by (simp add: write_asset_def unique_prices_of_def no_facts_def Let_def make_ctx_def
      no_offer_row_def no_offer_line_def ex_asset_name wrap_hyperlink_def py_str_def py_or_def
      DEFAULT_PUBLISHER_def sky_row_def sky_line_def)
    (simp add: sky_link_def)

lemma ex_run_publisher:
  "run_publisher one_asset_env {} DEFAULT_PUBLISHER fs
   = Some (mark_processed sky_link (save_csv_row sky_row (save_txt_line sky_line fs)), None)"
proof -
  have e: "env_goto one_asset_env = (\<lambda>url. None)" "env_visit one_asset_env = (\<lambda>link. Inr [])"
    "env_pystr one_asset_env = no_str" "env_set_order one_asset_env = insertion_order"
    by (simp_all add: one_asset_env_def)
  have b: "batched [sky_link] BATCH_SIZE = [[sky_link]]"
    by (subst batched.simps, simp add: BATCH_SIZE_def, subst batched.simps, simp)
  show ?thesis
    by (simp add: run_publisher_def e ex_collect b ex_write_asset)
qed

lemma ex_main:
  "main one_asset_env dup_publishers_files = Some (dup_final_files, None)"
proof -
  have l: "load_processed (save_csv_row HEADER dup_publishers_files) = {}"
    by (simp add: load_processed_def save_csv_row_def dup_publishers_files_def)
  show ?thesis
    unfolding main_def ex_load_publishers
    apply (simp add: Let_def l ex_run_publisher)
    apply (simp add: dup_publishers_files_def dup_final_files_def mark_processed_def
        save_csv_row_def save_txt_line_def append_to_def contents_def)
    done
qed

lemma ex_main_again:
  "main one_asset_env dup_final_files = Some (dup_final_files, None)"
proof -
  have lp: "load_publishers dup_final_files = Inr [DEFAULT_PUBLISHER, DEFAULT_PUBLISHER]"
    using ex_load_publishers
    by (simp add: load_publishers_def dup_publishers_files_def dup_final_files_def)
  have l: "sky_link \<in> load_processed dup_final_files"
    by (simp add: load_processed_def dup_final_files_def sky_link_def strip_def is_space_def)
  have b: "batched [sky_link] BATCH_SIZE = [[sky_link]]"
    by (subst batched.simps, simp add: BATCH_SIZE_def, subst batched.simps, simp)
  have g: "env_goto one_asset_env = (\<lambda>url. None)"
    by (simp add: one_asset_env_def)
  have r: "run_publisher one_asset_env (load_processed dup_final_files) DEFAULT_PUBLISHER dup_final_files
      = Some (dup_final_files, None)"
    by (simp add: run_publisher_def g ex_collect b l)
  show ?thesis
    unfolding main_def lp
    by (simp add: Let_def r) (simp add: dup_final_files_def)
qed

lemma ex_two_upgrades:
  "write_asset no_str insertion_order (fst DEFAULT_PUBLISHER) (snd DEFAULT_PUBLISHER)
     (sky_link, two_upgrade_facts) empty_files
   = (fst (write_asset no_str insertion_order (fst DEFAULT_PUBLISHER) (snd DEFAULT_PUBLISHER)
        (sky_link, two_upgrade_facts) empty_files), None)"
    "unique_prices_of insertion_order (found_prices two_upgrade_facts) = Inr [(JStr ''20.00'', JStr ''10.00'')]"
    "foldl set_add [] (found_prices two_upgrade_facts) = [(JStr ''20.00'', JStr ''10.00'')]"
proof -
  show f: "foldl set_add [] (found_prices two_upgrade_facts) = [(JStr ''20.00'', JStr ''10.00'')]"
    by (simp add: two_upgrade_facts_def set_add_def pair_eq_def py_eq_def)
  show u: "unique_prices_of insertion_order (found_prices two_upgrade_facts)
      = Inr [(JStr ''20.00'', JStr ''10.00'')]"
    unfolding unique_prices_of_def py_set_def f
    by (simp add: two_upgrade_facts_def insertion_order_def)
  from write_asset_files(1)[OF u, of no_str "fst DEFAULT_PUBLISHER" "snd DEFAULT_PUBLISHER" sky_link empty_files]
  show "write_asset no_str insertion_order (fst DEFAULT_PUBLISHER) (snd DEFAULT_PUBLISHER)
     (sky_link, two_upgrade_facts) empty_files
   = (fst (write_asset no_str insertion_order (fst DEFAULT_PUBLISHER) (snd DEFAULT_PUBLISHER)
        (sky_link, two_upgrade_facts) empty_files), None)"
    by (simp add: prod_eq_iff)
qed

lemma ex_two_upgrades_cols:
  "map price_cols (contents (output_csv (fst (write_asset no_str insertion_order
       (fst DEFAULT_PUBLISHER) (snd DEFAULT_PUBLISHER) (sky_link, two_upgrade_facts) empty_files))))
   = [(JStr ''20.00'', JStr ''10.00''), (JStr ''20.00'', JStr ''10.00'')]"
  unfolding write_asset_files(2)[OF ex_two_upgrades(2)]
  by (simp add: empty_files_def contents_def asset_rows_def price_cols_rows_of_pair)
     (simp add: two_upgrade_facts_def na_def py_or_def)


lemma str_nat_digits: "str_nat 1 = ''1''" "str_nat 2 = ''2''"
  by code_simp+


subsection \<open>The run over three assets\<close>

lemma ex3_links:
  "page_links_of [Some ''/packages/tools/sky-1'', Some ''/packages/tools/sea-2'',
                  Some ''/packages/tools/ice-3''] {} = {ice_link, sea_link, sky_link}"
  by (auto simp: ice_link_def sea_link_def sky_link_def)

lemma ex3_sorted: "sorted_list_of_set {ice_link, sea_link, sky_link} = [ice_link, sea_link, sky_link]"
proof -
  have "sorted [ice_link, sea_link, sky_link]" "distinct [ice_link, sea_link, sky_link]"
    by (simp_all add: ice_link_def sea_link_def sky_link_def)
  from sorted_list_of_set.idem_if_sorted_distinct[OF this] show ?thesis by simp
qed

lemma ex3_collect:
  "collect_all_assets_by_url (env_listing three_asset_env) (snd DEFAULT_PUBLISHER) PAGE_SIZE
     = Some ([page_url (snd DEFAULT_PUBLISHER) 1], Inr [ice_link, sea_link, sky_link])"
proof -
  have c: "card {ice_link, sea_link, sky_link} = 3"
    by (simp add: ice_link_def sea_link_def sky_link_def)
  have e: "env_listing three_asset_env
      = (\<lambda>url. Inr [Some ''/packages/tools/sky-1'', Some ''/packages/tools/sea-2'',
                       Some ''/packages/tools/ice-3''])"
    by (simp add: three_asset_env_def)
  show ?thesis
    apply (simp add: collect_all_assets_by_url_def)
    apply (subst collect_loop.simps)
    apply (simp add: e ex3_links c PAGE_SIZE_def Let_def ex3_sorted del: page_links_of.simps)
    done
qed

lemma ex3_sky_facts:
  "handle_response no_str three_dumps 900 (json_response sky_data) no_facts = sky_facts"
proof -
  have h: "all_headers (json_response sky_data) = Inr [(''content-type'', ''application/json'')]"
    "json_body (json_response sky_data) = Inr sky_data"
    by (simp_all add: json_response_def)
  have c: "py_in ''application/json'' (content_type [(''content-type'', ''application/json'')])"
    by (simp add: content_type_def)
  obtain ser where d: "three_dumps sky_data = Inr ser" "py_in ''product'' ser"
    by (simp add: three_dumps_def)
  from d(2) have g: "list_ex (\<lambda>k. py_in k ser) wanted_keys" by (simp add: wanted_keys_def)
  have n: "depth sky_data < 900" by (simp add: sky_data_def)
  have w: "walk offer_match sky_data [] = [(JStr ''20.00'', JStr ''10.00'')]"
    "walk (upgrade_match no_str) sky_data []
       = [(JStr ''Sky Lite'', ''https://assetstore.unity.com/packages/tools/sky-lite-4'')]"
    "walk name_match sky_data [] = [JStr ''Sky Master'']"
    by (simp_all add: sky_data_def offer_match_def offer_stop_def upgrade_match_def
        upgrade_stop_def upgrade_key_def name_match_def name_stop_def product_key_def
        dict_get_def dict_has_def py_or_def upgrade_of_def py_str_def Let_def)
  from handler_body_accepted[where r = "json_response sky_data"
      and hs = "[(''content-type'', ''application/json'')]" and data = sky_data
      and dumps = three_dumps and ser = ser and frames = 900 and pystr = no_str
      and fa = no_facts, OF h(1) c h(2) d(1) g n]
  show ?thesis by (simp add: handle_response_def no_facts_def w sky_facts_def)
qed

lemma ex3_sea_facts:
  "handle_response no_str three_dumps 900 (json_response sea_data) no_facts = sea_facts"
proof -
  have h: "all_headers (json_response sea_data) = Inr [(''content-type'', ''application/json'')]"
    "json_body (json_response sea_data) = Inr sea_data"
    by (simp_all add: json_response_def)
  have c: "py_in ''application/json'' (content_type [(''content-type'', ''application/json'')])"
    by (simp add: content_type_def)
  obtain ser where d: "three_dumps sea_data = Inr ser" "py_in ''offerRating'' ser"
    by (simp add: three_dumps_def sea_data_def sky_data_def)
  from d(2) have g: "list_ex (\<lambda>k. py_in k ser) wanted_keys" by (simp add: wanted_keys_def)
  have n: "depth sea_data < 900" by (simp add: sea_data_def)
  have w: "walk offer_match sea_data [] = [(JNull, JStr ''7.50'')]"
    "walk (upgrade_match no_str) sea_data [] = []"
    "walk name_match sea_data [] = []"
    by (simp_all add: sea_data_def offer_match_def offer_stop_def upgrade_match_def
        upgrade_stop_def upgrade_key_def name_match_def name_stop_def product_key_def
        dict_get_def dict_has_def py_or_def)
  from handler_body_accepted[where r = "json_response sea_data"
      and hs = "[(''content-type'', ''application/json'')]" and data = sea_data
      and dumps = three_dumps and ser = ser and frames = 900 and pystr = no_str
      and fa = no_facts, OF h(1) c h(2) d(1) g n]
  show ?thesis by (simp add: handle_response_def no_facts_def w sea_facts_def)
qed

lemma ex3_env:
  "env_pystr three_asset_env = no_str" "env_dumps three_asset_env = three_dumps"
  "env_frames three_asset_env = 900" "env_set_order three_asset_env = insertion_order"
  "env_goto three_asset_env = (\<lambda>url. None)"
  "env_visit three_asset_env ice_link = Inr []"
  "env_visit three_asset_env sea_link = Inr [json_response sea_data]"
  "env_visit three_asset_env sky_link = Inr [json_response sky_data]"
  by (simp_all add: three_asset_env_def ice_link_def sea_link_def sky_link_def)

lemma ex3_collected:
  "collected three_asset_env ice_link = Some no_facts"
  "collected three_asset_env sea_link = Some sea_facts"
  "collected three_asset_env sky_link = Some sky_facts"
  by (simp_all add: collected_def ex3_env ex3_sea_facts ex3_sky_facts)

lemma ex3_process:
  "process_assets three_asset_env [ice_link, sea_link, sky_link]
     = Inr [(ice_link, no_facts), (sea_link, sea_facts), (sky_link, sky_facts)]"
  by (simp add: ex3_env ex3_sea_facts ex3_sky_facts)

lemma ex3_rows:
  "asset_rows (make_ctx no_str (fst DEFAULT_PUBLISHER) (snd DEFAULT_PUBLISHER) ice_link no_facts)
     (upgrade_from no_facts) [] = [ice_row]"
  "asset_rows (make_ctx no_str (fst DEFAULT_PUBLISHER) (snd DEFAULT_PUBLISHER) sea_link sea_facts)
     (upgrade_from sea_facts) [(JNull, JStr ''7.50'')] = [sea_row]"
  "asset_rows (make_ctx no_str (fst DEFAULT_PUBLISHER) (snd DEFAULT_PUBLISHER) sky_link sky_facts)
     (upgrade_from sky_facts) [(JStr ''20.00'', JStr ''10.00'')] = [sky_upgrade_row]"
proof -
  have n: "asset_name_of ice_link [] = JStr ''ice-3''" "asset_name_of sea_link [] = JStr ''sea-2''"
    by (simp_all add: asset_name_of_def ice_link_def sea_link_def)
  show "asset_rows (make_ctx no_str (fst DEFAULT_PUBLISHER) (snd DEFAULT_PUBLISHER) ice_link no_facts)
     (upgrade_from no_facts) [] = [ice_row]"
    by (simp add: asset_rows_def no_offer_row_def make_ctx_def no_facts_def n wrap_hyperlink_def
        py_str_def py_or_def DEFAULT_PUBLISHER_def ice_row_def)
      (simp add: ice_link_def)
  show "asset_rows (make_ctx no_str (fst DEFAULT_PUBLISHER) (snd DEFAULT_PUBLISHER) sea_link sea_facts)
     (upgrade_from sea_facts) [(JNull, JStr ''7.50'')] = [sea_row]"
    by (simp add: asset_rows_def rows_of_pair_def price_row_def make_ctx_def sea_facts_def n
        wrap_hyperlink_def py_str_def py_or_def na_def DEFAULT_PUBLISHER_def sea_row_def)
      (simp add: sea_link_def)
  show "asset_rows (make_ctx no_str (fst DEFAULT_PUBLISHER) (snd DEFAULT_PUBLISHER) sky_link sky_facts)
     (upgrade_from sky_facts) [(JStr ''20.00'', JStr ''10.00'')] = [sky_upgrade_row]"
    by (simp add: asset_rows_def rows_of_pair_def upgrade_row_def make_ctx_def sky_facts_def
        asset_name_of_def wrap_hyperlink_def py_str_def py_or_def na_def DEFAULT_PUBLISHER_def
        sky_upgrade_row_def)
      (simp add: sky_link_def)
qed

lemma ex3_unique:
  "unique_prices_of insertion_order (found_prices no_facts) = Inr []"
  "unique_prices_of insertion_order (found_prices sea_facts) = Inr [(JNull, JStr ''7.50'')]"
  "unique_prices_of insertion_order (found_prices sky_facts) = Inr [(JStr ''20.00'', JStr ''10.00'')]"
  by (simp_all add: unique_prices_of_def py_set_def set_add_def insertion_order_def no_facts_def
      sea_facts_def sky_facts_def)

lemma ex3_write:
  "\<exists>fs'. write_results three_asset_env (fst DEFAULT_PUBLISHER) (snd DEFAULT_PUBLISHER)
            [(ice_link, no_facts), (sea_link, sea_facts), (sky_link, sky_facts)] fs = (fs', None)
        \<and> contents (output_csv fs') = contents (output_csv fs) @ [ice_row, sea_row, sky_upgrade_row]"
proof -
  let ?w = "\<lambda>result fs. write_asset no_str insertion_order (fst DEFAULT_PUBLISHER)
      (snd DEFAULT_PUBLISHER) result fs"
  define fs1 where "fs1 = fst (?w (ice_link, no_facts) fs)"
  define fs2 where "fs2 = fst (?w (sea_link, sea_facts) fs1)"
  define fs3 where "fs3 = fst (?w (sky_link, sky_facts) fs2)"
  have w1: "?w (ice_link, no_facts) fs = (fs1, None)"
    using write_asset_files(1)[OF ex3_unique(1), of no_str "fst DEFAULT_PUBLISHER"
        "snd DEFAULT_PUBLISHER" ice_link fs]
    by (simp add: fs1_def prod_eq_iff)
  have w2: "?w (sea_link, sea_facts) fs1 = (fs2, None)"
    using write_asset_files(1)[OF ex3_unique(2), of no_str "fst DEFAULT_PUBLISHER"
        "snd DEFAULT_PUBLISHER" sea_link fs1]
    by (simp add: fs2_def prod_eq_iff)
  have w3: "?w (sky_link, sky_facts) fs2 = (fs3, None)"
    using write_asset_files(1)[OF ex3_unique(3), of no_str "fst DEFAULT_PUBLISHER"
        "snd DEFAULT_PUBLISHER" sky_link fs2]
    by (simp add: fs3_def prod_eq_iff)
  have c1: "contents (output_csv fs1) = contents (output_csv fs) @ [ice_row]"
    unfolding fs1_def write_asset_files(2)[OF ex3_unique(1)] ex3_rows ..
  have c2: "contents (output_csv fs2) = contents (output_csv fs1) @ [sea_row]"
    unfolding fs2_def write_asset_files(2)[OF ex3_unique(2)] ex3_rows ..
  have c3: "contents (output_csv fs3) = contents (output_csv fs2) @ [sky_upgrade_row]"
    unfolding fs3_def write_asset_files(2)[OF ex3_unique(3)] ex3_rows ..
  have "write_results three_asset_env (fst DEFAULT_PUBLISHER) (snd DEFAULT_PUBLISHER)
            [(ice_link, no_facts), (sea_link, sea_facts), (sky_link, sky_facts)] fs = (fs3, None)"
    by (simp add: ex3_env w1 w2 w3)
  moreover have "contents (output_csv fs3) = contents (output_csv fs) @ [ice_row, sea_row, sky_upgrade_row]"
    by (simp add: c1 c2 c3)
  ultimately show ?thesis by blast
qed

lemma ex3_main:
  "\<exists>fs'. main three_asset_env empty_files = Some (fs', None)
        \<and> contents (output_csv fs') = [HEADER, ice_row, sea_row, sky_upgrade_row]"
proof -
  have lp: "load_publishers empty_files = Inr [DEFAULT_PUBLISHER]"
    by (simp add: load_publishers_def empty_files_def)
  have l: "load_processed (save_csv_row HEADER empty_files) = {}"
    by (simp add: load_processed_def save_csv_row_def empty_files_def)
  have b: "batched [ice_link, sea_link, sky_link] BATCH_SIZE = [[ice_link, sea_link, sky_link]]"
    by (subst batched.simps, simp add: BATCH_SIZE_def, subst batched.simps, simp)
  from ex3_write[of "save_csv_row HEADER empty_files"] obtain fs' where
    w: "write_results three_asset_env (fst DEFAULT_PUBLISHER) (snd DEFAULT_PUBLISHER)
            [(ice_link, no_facts), (sea_link, sea_facts), (sky_link, sky_facts)]
            (save_csv_row HEADER empty_files) = (fs', None)"
       "contents (output_csv fs') = contents (output_csv (save_csv_row HEADER empty_files))
            @ [ice_row, sea_row, sky_upgrade_row]"
    by blast
  have r: "run_publisher three_asset_env {} DEFAULT_PUBLISHER (save_csv_row HEADER empty_files)
      = Some (fs', None)"
    by (simp add: run_publisher_def ex3_env ex3_collect b ex3_process w(1)
        del: process_assets.simps write_results.simps)
  have "main three_asset_env empty_files = Some (fs', None)"
    unfolding main_def lp by (simp add: Let_def l r) (simp add: empty_files_def)
  moreover have "contents (output_csv fs') = [HEADER, ice_row, sea_row, sky_upgrade_row]"
    using w(2) by (simp add: empty_files_def) (simp add: contents_def)
  ultimately show ?thesis by blast
qed

section \<open>C1: processed assets and later batches\<close>

text \<open>
  C1. The stated property: a URL that is in the processed set when a batch is formed is
  left out of the batch, and a URL already in \<^verbatim>\<open>processed_assets.txt\<close> is never visited or emitted
  again, in the same run or a later one. The program reads the file once, before the first
  publisher, and filters every batch against that snapshot; \<^verbatim>\<open>mark_processed\<close> writes
  the file and leaves the snapshot as it was. The run below starts with no progress file
  and a publisher file that names the same publisher page twice: the one asset is visited
  and written for the first entry, its URL is in the file from then on, and it is visited
  and written again for the second entry. A second run over the resulting files reads the
  URL back and writes nothing.
\<close>

theorem processed_asset_revisited_in_same_run:
  "main one_asset_env dup_publishers_files = Some (dup_final_files, None)
   \<and> contents (progress_file dup_final_files) = sky_link @ [LF] @ sky_link @ [LF]
   \<and> contents (output_csv dup_final_files) = [HEADER, sky_row, sky_row]
   \<and> main one_asset_env dup_final_files = Some (dup_final_files, None)"
proof -
  have "contents (progress_file dup_final_files) = sky_link @ [LF] @ sky_link @ [LF]"
    and "contents (output_csv dup_final_files) = [HEADER, sky_row, sky_row]"
    by (simp_all add: dup_final_files_def contents_def)
  with ex_main ex_main_again show ?thesis by (intro conjI)
qed


section \<open>C2: facts collected at any depth\<close>

text \<open>
  C2, as amended. Take a response the handler accepts: its headers and body are read, its
  content type contains \<^verbatim>\<open>application/json\<close>, its body is serialised, the
  serialisation contains one of the five words the handler looks for, every dict of the
  body has one item per key, and the body is nested less deep than the stack frames left.
  Then the handler raises nothing, and what it adds to each list is exactly the facts of
  the occurrences its extractor reaches, at whatever depth: the price pair of every
  \<^verbatim>\<open>offerRating\<close> whose value is a dict with a truthy original or final price; the
  upgrade of every dict under an \<^verbatim>\<open>upgradeFrom\<close> or \<^verbatim>\<open>upgradableFrom\<close> key (the value
  itself, or a member of a list value); the name of every named dict under \<^verbatim>\<open>product\<close>
  or \<^verbatim>\<open>item\<close>, and of every named dict in a \<^verbatim>\<open>results\<close> list. An occurrence is
  reached when no item on the way to it is one the same extractor handles itself; the
  facts of occurrences nested inside such an item are not collected.
\<close>

theorem handle_response_collects_reached:
  assumes "all_headers r = Inr hs"
    and "py_in ''application/json'' (content_type hs)"
    and "json_body r = Inr data"
    and "dumps data = Inr ser"
    and "list_ex (\<lambda>k. py_in k ser) wanted_keys"
    and "wf_json data"
    and "depth data < frames"
  shows "snd (handler_body pystr dumps frames r fa) = None
       \<and> set (found_prices (handle_response pystr dumps frames r fa))
           = set (found_prices fa) \<union> reached_offers data
       \<and> set (upgrade_from (handle_response pystr dumps frames r fa))
           = set (upgrade_from fa) \<union> reached_upgrades pystr data
       \<and> set (asset_names (handle_response pystr dumps frames r fa))
           = set (asset_names fa) \<union> reached_names data"
proof -
  note hb = handler_body_accepted[where r = r and hs = hs and data = data and dumps = dumps
      and ser = ser and frames = frames and pystr = pystr and fa = fa, OF assms(1-5,7)]
  have "set (walk offer_match data (found_prices fa)) = set (found_prices fa) \<union> reached_offers data"
    using assms(6) by (simp add: walk_set reached_offers_occurs)
  moreover have "set (walk (upgrade_match pystr) data (upgrade_from fa))
      = set (upgrade_from fa) \<union> reached_upgrades pystr data"
    using assms(6) by (simp add: walk_set reached_upgrades_occurs)
  moreover have "set (walk name_match data (asset_names fa))
      = set (asset_names fa) \<union> reached_names data"
    using assms(6) by (simp add: walk_set reached_names_occurs)
  ultimately show ?thesis by (simp add: handle_response_def hb)
qed

text \<open>
  The theorem at a response whose offer sits two levels down, inside a list: the pair is
  the one fact reached, and the one fact collected.
\<close>

theorem handle_response_collects_reached_witness:
  "snd (handler_body no_str offer_dumps 900 offer_response no_facts) = None
   \<and> reached_offers offer_data = {(JStr ''20.00'', JStr ''10.00'')}
   \<and> set (found_prices (handle_response no_str offer_dumps 900 offer_response no_facts))
       = {(JStr ''20.00'', JStr ''10.00'')}"
proof -
  have h: "all_headers offer_response = Inr [(''content-type'', ''application/json'')]"
    "json_body offer_response = Inr offer_data"
    by (simp_all add: offer_response_def)
  have c: "py_in ''application/json'' (content_type [(''content-type'', ''application/json'')])"
    by (simp add: content_type_def)
  have d: "offer_dumps offer_data
      = Inr ''{\"data\": [{\"offerRating\": {\"originalPrice\": \"20.00\", \"finalPrice\": \"10.00\"}}]}''"
    by (simp add: offer_dumps_def)
  have g: "list_ex (\<lambda>k. py_in k
      ''{\"data\": [{\"offerRating\": {\"originalPrice\": \"20.00\", \"finalPrice\": \"10.00\"}}]}'')
      wanted_keys"
    by (simp add: wanted_keys_def)
  have w: "wf_json offer_data" by (simp add: offer_data_def)
  have n: "depth offer_data < 900" by (simp add: offer_data_def)
  have r: "reached_offers offer_data = {(JStr ''20.00'', JStr ''10.00'')}"
    unfolding reached_offers_walk[OF w]
    by (simp add: offer_data_def offer_match_def offer_stop_def dict_get_def py_or_def)
  from handle_response_collects_reached[where r = offer_response
      and hs = "[(''content-type'', ''application/json'')]" and data = offer_data
      and dumps = offer_dumps and frames = 900 and pystr = no_str and fa = no_facts
      and ser = "''{\"data\": [{\"offerRating\": {\"originalPrice\": \"20.00\", \"finalPrice\": \"10.00\"}}]}''",
      OF h(1) c h(2) d g w n] r
  show ?thesis by (simp add: no_facts_def)
qed

text \<open>
  C2 as stated fails: in \<^verbatim>\<open>{"results": [{"product": {"name": "Sky Master"}}]}\<close> the key
  \<^verbatim>\<open>product\<close> occurs with a named dict, at the path \<^verbatim>\<open>results\<close>, 0, and no name is
  collected, because the extractor does not descend into the members of a \<^verbatim>\<open>results\<close>
  list.
\<close>

theorem handle_response_collects_reached_counterexample:
  "descend never_stop nested_product_data [Key ''results'', Idx 0]
     = Some (JObj [(''product'', JObj [(''name'', JStr ''Sky Master'')])])
   \<and> extract_asset_name 900 nested_product_data [] = ([], None)"
proof -
  have "depth nested_product_data < 900" by (simp add: nested_product_data_def)
  from extract_asset_name_walk(1)[OF this, of "[]"] show ?thesis
    by (simp add: nested_product_data_def never_stop_def name_match_def name_stop_def
        dict_has_def)
qed

section \<open>C3: the collector stops at the first short page\<close>

text \<open>
  C3. The collector returns after fetching exactly the pages 1 to \<open>n\<close> if and only if
  page \<open>n\<close> is the first page that yields no link or fewer distinct links than the page
  size, every page before it having loaded with at least that many. In particular, when
  the first page is short, one page is fetched.
\<close>

theorem collector_stops_at_first_short_page:
  "(((\<exists>all_links. collect_all_assets_by_url goto base_url page_size
         = Some (map (page_url base_url) [1..<Suc n], Inr all_links)) \<and> 1 \<le> n)
      = first_short goto base_url page_size n)
   \<and> (short_page goto base_url page_size 1
        \<longrightarrow> (\<exists>all_links. collect_all_assets_by_url goto base_url page_size
               = Some ([page_url base_url 1], Inr all_links)))"
proof (intro conjI impI)
  show "((\<exists>all_links. collect_all_assets_by_url goto base_url page_size
         = Some (map (page_url base_url) [1..<Suc n], Inr all_links)) \<and> 1 \<le> n)
      = first_short goto base_url page_size n"
    by (rule collector_stops_iff)
next
  assume "short_page goto base_url page_size 1"
  then have "first_short goto base_url page_size 1"
    by (simp add: first_short_def)
  with collector_stops_iff[of goto base_url page_size 1]
  show "\<exists>all_links. collect_all_assets_by_url goto base_url page_size
               = Some ([page_url base_url 1], Inr all_links)"
    by simp
qed

text \<open>
  The theorem at a listing with page size 2 whose first page shows two distinct links (one
  of them twice) and whose second page shows one: two pages are fetched.
\<close>

theorem collector_stops_at_first_short_page_witness:
  "\<exists>all_links. collect_all_assets_by_url two_page_listing
       ''https://assetstore.unity.com/publishers/7?pageSize=2'' 2
     = Some ([''https://assetstore.unity.com/publishers/7?pageSize=2&page=1'',
              ''https://assetstore.unity.com/publishers/7?pageSize=2&page=2''], Inr all_links)"
proof -
  let ?b = "''https://assetstore.unity.com/publishers/7?pageSize=2''"
  have p: "page_url ?b 1 = ''https://assetstore.unity.com/publishers/7?pageSize=2&page=1''"
    "page_url ?b 2 = ''https://assetstore.unity.com/publishers/7?pageSize=2&page=2''"
    unfolding page_url_def str_nat_digits by simp_all
  have c1: "card {''https://assetstore.unity.com/packages/tools/a-1'',
      ''https://assetstore.unity.com/packages/tools/b-2'',
      ''https://assetstore.unity.com/packages/tools/a-1''} = (2::nat)"
    by code_simp
  have f1: "full_page two_page_listing ?b 2 1"
    unfolding full_page_def p by (simp add: two_page_listing_def c1)
  have s2: "short_page two_page_listing ?b 2 2"
    unfolding short_page_def p by (simp add: two_page_listing_def)
  have f: "first_short two_page_listing ?b 2 2"
    unfolding first_short_def
  proof (intro conjI allI impI)
    fix k :: nat
    assume "1 \<le> k \<and> k < 2"
    then have "k = 1" by simp
    with f1 show "full_page two_page_listing ?b 2 k" by simp
  qed (simp_all add: s2)
  have u: "map (page_url ?b) [1..<Suc 2]
      = [''https://assetstore.unity.com/publishers/7?pageSize=2&page=1'',
         ''https://assetstore.unity.com/publishers/7?pageSize=2&page=2'']"
  proof -
    have "[1..<Suc 2] = [1, 2::nat]" by (simp add: upt_rec)
    then show ?thesis by (simp only: list.map p)
  qed
  from collector_stops_at_first_short_page[of two_page_listing ?b 2 2, THEN conjunct1] f
  show ?thesis unfolding u by simp
qed


section \<open>C4: price pairs are deduplicated before rows are written\<close>

text \<open>
  C4, as amended. When the rows of an asset are written, the price pairs they are built
  from have been deduplicated with set semantics: no two of the pairs iterated are equal
  as Python tuples, each is a collected pair, and every collected pair equals one of them.
  Each iterated pair yields one row when the asset has no upgrade relation and one row per
  collected upgrade relation otherwise; the two price columns of these rows hold the pair,
  with \<^verbatim>\<open>N/A\<close> for a falsy price. An asset with no collected pair gets one row with two
  empty price columns. The iteration order of the set is any rearrangement of its members.
\<close>

theorem price_pairs_deduplicated:
  assumes "write_asset pystr ord pn pu (link, fa) fs = (fs', None)"
    and "mset (ord (foldl set_add [] (found_prices fa))) = mset (foldl set_add [] (found_prices fa))"
  shows "\<exists>unique new.
           unique_prices_of ord (found_prices fa) = Inr unique
         \<and> py_distinct unique \<and> covers unique (found_prices fa)
         \<and> contents (output_csv fs') = contents (output_csv fs) @ new
         \<and> map price_cols new =
             (if found_prices fa = [] then [(JStr [], JStr [])]
              else concat (map (\<lambda>p. replicate (max 1 (length (upgrade_from fa))) (na (fst p), na (snd p)))
                     unique))"
proof -
  let ?c = "make_ctx pystr pn pu link fa"
  from write_asset_cases[of ord fa pystr pn pu link fs] assms(1)
  obtain unique where u: "unique_prices_of ord (found_prices fa) = Inr unique"
    by auto
  have fs': "fs' = fst (write_asset pystr ord pn pu (link, fa) fs)" using assms(1) by simp
  have rows: "contents (output_csv fs') = contents (output_csv fs) @ asset_rows ?c (upgrade_from fa) unique"
    unfolding fs' by (rule write_asset_files(2)[OF u])
  note d = unique_prices_dedup[OF u assms(2)]
  have "map price_cols (asset_rows ?c (upgrade_from fa) unique) =
             (if found_prices fa = [] then [(JStr [], JStr [])]
              else concat (map (\<lambda>p. replicate (max 1 (length (upgrade_from fa))) (na (fst p), na (snd p)))
                     unique))"
  proof (cases "found_prices fa = []")
    case True
    with u have "unique = []" by (simp add: unique_prices_of_def)
    then show ?thesis using True by (simp add: asset_rows_def no_offer_row_def price_cols_def)
  next
    case False
    from unique_prices_nonempty[OF u False assms(2)] have ne: "unique \<noteq> []" .
    have "map price_cols (concat (map (rows_of_pair ?c (upgrade_from fa)) unique))
        = concat (map (\<lambda>p. map price_cols (rows_of_pair ?c (upgrade_from fa) p)) unique)"
      by (simp add: map_concat comp_def)
    then show ?thesis using False ne
      by (simp add: asset_rows_def price_cols_rows_of_pair)
  qed
  with u d rows show ?thesis by blast
qed

text \<open>
  C4 as stated fails: an asset with one distinct price pair and two upgrade relations gets
  two rows, and both carry that pair.
\<close>

theorem price_pairs_deduplicated_counterexample:
  "\<not> distinct (map price_cols (contents (output_csv (fst (write_asset no_str insertion_order
       (fst DEFAULT_PUBLISHER) (snd DEFAULT_PUBLISHER) (sky_link, two_upgrade_facts) empty_files)))))"
  unfolding ex_two_upgrades_cols by simp

text \<open>
  The theorem at the same asset: the pair was collected twice, is iterated once, and fills
  the price columns of one row per upgrade relation.
\<close>

theorem price_pairs_deduplicated_witness:
  "\<exists>new. contents (output_csv (fst (write_asset no_str insertion_order
       (fst DEFAULT_PUBLISHER) (snd DEFAULT_PUBLISHER) (sky_link, two_upgrade_facts) empty_files))) = new
     \<and> map price_cols new = replicate 2 (JStr ''20.00'', JStr ''10.00'')"
proof -
  have m: "mset (insertion_order (foldl set_add [] (found_prices two_upgrade_facts)))
      = mset (foldl set_add [] (found_prices two_upgrade_facts))"
    by (simp add: insertion_order_def)
  from price_pairs_deduplicated[OF ex_two_upgrades(1) m] ex_two_upgrades(2)
  show ?thesis
    by (auto simp: empty_files_def contents_def two_upgrade_facts_def na_def py_or_def
        numeral_2_eq_2)
qed


section \<open>C5: every CSV row has the eight header columns\<close>

text \<open>
  C5. The header row is the eight names Asset Name, Original Price, Final Price, Upgrade
  From, Upgrade URL, Asset URL, Publisher Name, Publisher Page, in this order. Whatever a
  run of the main routine appends to the CSV file, and however the run ends, the rows
  already in the file stay in front; the header row is appended first, exactly when the
  file did not exist; and every row after it is a data row of eight cells, each holding
  what its header names, for one of the publishers of the run and an asset whose page
  loaded, with the facts collected from that page: the asset's name; the two prices of one
  collected pair, or two empty cells when no pair was collected; the name and the link of
  one collected upgrade, or two empty cells when no pair or no upgrade was collected; the
  hyperlink to the asset; the publisher's name; the hyperlink to the publisher's page. The
  iteration order of a set is any rearrangement of its members.
\<close>

theorem csv_rows_have_eight_columns:
  assumes "main env fs = Some (fs', err)"
    and "\<forall>s. mset (env_set_order env s) = mset s"
  shows "HEADER = map JStr [''Asset Name'', ''Original Price'', ''Final Price'', ''Upgrade From'',
                             ''Upgrade URL'', ''Asset URL'', ''Publisher Name'', ''Publisher Page'']
       \<and> (\<exists>publishers rows.
            load_publishers fs = Inr publishers
          \<and> contents (output_csv fs')
              = contents (output_csv fs) @ (if output_csv fs = None then [HEADER] else []) @ rows
          \<and> list_all (\<lambda>row. length row = 8) (HEADER # rows)
          \<and> list_all (row_of_run env publishers) rows)"
proof
  show "HEADER = map JStr [''Asset Name'', ''Original Price'', ''Final Price'', ''Upgrade From'',
                            ''Upgrade URL'', ''Asset URL'', ''Publisher Name'', ''Publisher Page'']"
    by (simp add: HEADER_def)
next
  from load_publishers_total obtain publishers where lp: "load_publishers fs = Inr publishers"
    by blast
  let ?fs1 = "if output_csv fs = None then save_csv_row HEADER fs else fs"
  have h: "contents (output_csv ?fs1)
      = contents (output_csv fs) @ (if output_csv fs = None then [HEADER] else [])"
    by simp
  from lp assms(1) have "run_publishers env (load_processed ?fs1) publishers ?fs1 = Some (fs', err)"
    by (simp add: main_def Let_def)
  from csv_grows_run_publishers[OF this assms(2) subset_refl] obtain rows where
    rows: "contents (output_csv fs') = contents (output_csv ?fs1) @ rows"
      "list_all (row_of_run env publishers) rows"
    unfolding csv_grows_def by blast
  from rows(2) have "list_all (\<lambda>row. length row = 8) rows"
    by (auto simp: list_all_iff row_of_run_def data_row_def)
  then have l: "list_all (\<lambda>row. length row = 8) (HEADER # rows)"
    by (simp add: HEADER_def)
  from rows(1) h have "contents (output_csv fs')
      = contents (output_csv fs) @ (if output_csv fs = None then [HEADER] else []) @ rows"
    by simp
  with lp l rows(2)
  show "\<exists>publishers rows.
            load_publishers fs = Inr publishers
          \<and> contents (output_csv fs')
              = contents (output_csv fs) @ (if output_csv fs = None then [HEADER] else []) @ rows
          \<and> list_all (\<lambda>row. length row = 8) (HEADER # rows)
          \<and> list_all (row_of_run env publishers) rows"
    by blast
qed

text \<open>
  The theorem at a first run over three assets, with no file at the start: the header row,
  then the row of an asset without facts, the row of an asset with a price pair whose
  original price is null, and the row of an asset with a price pair and an upgrade.
\<close>

theorem csv_rows_have_eight_columns_witness:
  "(\<exists>fs'. main three_asset_env empty_files = Some (fs', None)
      \<and> contents (output_csv fs') = [HEADER, ice_row, sea_row, sky_upgrade_row])
   \<and> list_all (row_of_run three_asset_env [DEFAULT_PUBLISHER]) [ice_row, sea_row, sky_upgrade_row]
   \<and> data_row no_str DEFAULT_PUBLISHER ice_link no_facts ice_row
   \<and> data_row no_str DEFAULT_PUBLISHER sea_link sea_facts sea_row
   \<and> data_row no_str DEFAULT_PUBLISHER sky_link sky_facts sky_upgrade_row"
proof -
  from ex3_main obtain fs' where
    m: "main three_asset_env empty_files = Some (fs', None)"
       "contents (output_csv fs') = [HEADER, ice_row, sea_row, sky_upgrade_row]"
    by blast
  have o: "\<forall>s. mset (env_set_order three_asset_env s) = mset s"
    by (simp add: ex3_env insertion_order_def)
  have lp: "load_publishers empty_files = Inr [DEFAULT_PUBLISHER]"
    by (simp add: load_publishers_def empty_files_def)
  from csv_rows_have_eight_columns[OF m(1) o] lp m(2)
  have r: "list_all (row_of_run three_asset_env [DEFAULT_PUBLISHER]) [ice_row, sea_row, sky_upgrade_row]"
    by (auto simp: empty_files_def contents_def)
  have d: "data_row no_str DEFAULT_PUBLISHER ice_link no_facts ice_row"
    "data_row no_str DEFAULT_PUBLISHER sea_link sea_facts sea_row"
    "data_row no_str DEFAULT_PUBLISHER sky_link sky_facts sky_upgrade_row"
    using data_row_no_offer[of no_facts no_str "fst DEFAULT_PUBLISHER" "snd DEFAULT_PUBLISHER" ice_link]
      data_row_price[of JNull "JStr ''7.50''" sea_facts no_str "fst DEFAULT_PUBLISHER"
        "snd DEFAULT_PUBLISHER" sea_link]
      data_row_upgrade[of "JStr ''20.00''" "JStr ''10.00''" sky_facts
        "(JStr ''Sky Lite'', ''https://assetstore.unity.com/packages/tools/sky-lite-4'')"
        no_str "fst DEFAULT_PUBLISHER" "snd DEFAULT_PUBLISHER" sky_link]
      ex3_rows
    by (simp_all add: asset_rows_def rows_of_pair_def no_facts_def sea_facts_def sky_facts_def)
  from m r d show ?thesis by blast
qed

section \<open>C6: exceptions in the response handler\<close>




section \<open>C7: persistence is append-only\<close>

text \<open>
  C7. Each of the three writers (text line, CSV row, processed marker) only appends: what
  its file held before the call is a prefix of what it holds after the call (a missing file
  counts as empty and exists afterwards), so nothing written earlier is changed or removed;
  the other files are left as they were.
\<close>

theorem persistence_append_only:
  "prefix (contents (output_txt fs)) (contents (output_txt (save_txt_line t fs)))
   \<and> prefix (contents (output_csv fs)) (contents (output_csv (save_csv_row r fs)))
   \<and> prefix (contents (progress_file fs)) (contents (progress_file (mark_processed l fs)))
   \<and> contents (output_txt (save_txt_line t fs)) = contents (output_txt fs) @ t @ [LF]
   \<and> contents (output_csv (save_csv_row r fs)) = contents (output_csv fs) @ [r]
   \<and> contents (progress_file (mark_processed l fs)) = contents (progress_file fs) @ l @ [LF]
   \<and> output_csv (save_txt_line t fs) = output_csv fs
   \<and> progress_file (save_txt_line t fs) = progress_file fs
   \<and> output_txt (save_csv_row r fs) = output_txt fs
   \<and> progress_file (save_csv_row r fs) = progress_file fs
   \<and> output_txt (mark_processed l fs) = output_txt fs
   \<and> output_csv (mark_processed l fs) = output_csv fs"
  by (simp add: save_txt_line_def save_csv_row_def mark_processed_def append_to_def contents_def)

section \<open>C8: the publisher list\<close>

text \<open>
  C8. Reading the publisher list never fails. Each qualifying line of
  \<^verbatim>\<open>publishers.txt\<close> (not blank, with a comma) gives, in order, the pair of its
  stripped text before the first comma and its stripped text after it; when there is no
  such line (the file is missing, empty, or has none) the list is the single default
  publisher.
\<close>

theorem load_publishers_default_or_lines:
  "\<exists>ps. list_all2 name_url_of
          (filter qualifying (case publishers_txt fs of None \<Rightarrow> [] | Some c \<Rightarrow> readlines c)) ps
      \<and> load_publishers fs = Inr (if ps = [] then [DEFAULT_PUBLISHER] else ps)"
proof (cases "publishers_txt fs")
  case None
  then show ?thesis by (simp add: load_publishers_def)
next
  case (Some c)
  from parse_publishers_closed[of "readlines c" "[]"] obtain ps where
    "parse_publishers (readlines c) [] = Inr ps" "list_all2 name_url_of (filter qualifying (readlines c)) ps"
    by auto
  then show ?thesis using Some by (intro exI[of _ ps]) (simp add: load_publishers_def)
qed

section \<open>C9: marking a link and reading the processed set back\<close>

text \<open>
  C9, as amended. For a URL with no line feed, no carriage return and no leading or
  trailing whitespace, and a progress file that is missing, empty or ends with a line
  feed, the processed set read after \<^verbatim>\<open>mark_processed\<close> is the set read before it with
  the URL added. \<^verbatim>\<open>load_processed\<close> returns the set of stripped lines of the file, and
  the empty set when the file is missing.
\<close>

theorem mark_then_load:
  assumes "LF \<notin> set link" and "CR \<notin> set link" and "strip link = link"
    and "contents (progress_file fs) = [] \<or> last (contents (progress_file fs)) = LF"
  shows "load_processed (mark_processed link fs) = insert link (load_processed fs)
    \<and> load_processed fs =
        (case progress_file fs of None \<Rightarrow> {} | Some c \<Rightarrow> set (map strip (readlines c)))"
proof -
  let ?c = "contents (progress_file fs)"
  have new: "readlines (link @ [LF]) = [link @ [LF]]"
    using assms(1,2) by (rule readlines_line)
  have "readlines (?c @ link @ [LF]) = readlines ?c @ [link @ [LF]]"
  proof (cases "?c = []")
    case True
    then show ?thesis using new by simp
  next
    case False
    with assms(4) have "?c = butlast ?c @ [LF]"
      using append_butlast_last_id[of ?c] by simp
    then obtain d where d: "?c = d @ [LF]" ..
    have "readlines (d @ LF # link @ [LF]) = readlines (d @ [LF]) @ readlines (link @ [LF])"
      by (rule readlines_append_LF)
    then show ?thesis using d new by simp
  qed
  then have "load_processed (mark_processed link fs) = insert link (set (map strip (readlines ?c)))"
    using strip_fixed_append_LF[OF assms(3)]
    by (simp add: load_processed_def mark_processed_def append_to_def)
  moreover have "set (map strip (readlines ?c)) = load_processed fs"
    by (cases "progress_file fs") (simp_all add: load_processed_def contents_def)
  ultimately show ?thesis by (simp add: load_processed_def)
qed

text \<open>
  C9 as stated fails when the file does not end with a line feed: the marker is appended
  to the unfinished last line, and the URL is not in the set read back.
\<close>

theorem mark_then_load_counterexample:
  "''u'' \<notin> load_processed (mark_processed ''u''
     \<lparr>output_txt = None, output_csv = None, progress_file = Some ''x'', publishers_txt = None\<rparr>)"
  by (simp add: load_processed_def mark_processed_def append_to_def contents_def strip_def is_space_def)

text \<open>The theorem at a progress file holding one marked link.\<close>

theorem mark_then_load_witness:
  "load_processed (mark_processed ''https://assetstore.unity.com/packages/tools/b-2''
      \<lparr>output_txt = None, output_csv = None,
       progress_file = Some (''https://assetstore.unity.com/packages/tools/a-1'' @ [LF]),
       publishers_txt = None\<rparr>)
   = {''https://assetstore.unity.com/packages/tools/b-2'', ''https://assetstore.unity.com/packages/tools/a-1''}"
  using mark_then_load[of "''https://assetstore.unity.com/packages/tools/b-2''"
      "\<lparr>output_txt = None, output_csv = None,
       progress_file = Some (''https://assetstore.unity.com/packages/tools/a-1'' @ [LF]),
       publishers_txt = None\<rparr>"]
  by (simp add: load_processed_def contents_def strip_def is_space_def)

section \<open>C10: the asset name of the rows\<close>

text \<open>
  C10. When the rows of an asset are written, at least one CSV row is written, every row
  has the asset name in its first column and every text line starts with it. The name is
  the first collected name when there is one; otherwise it is the part of the URL after
  its last slash (the whole URL when it has no slash).
\<close>

theorem asset_name_first_or_url_tail:
  assumes "write_asset pystr ord pn pu (link, fa) fs = (fs', None)"
  shows "(\<exists>new. contents (output_csv fs') = contents (output_csv fs) @ new \<and> new \<noteq> []
            \<and> list_all (\<lambda>row. hd row = asset_name_of link (asset_names fa)) new)
       \<and> (\<exists>lines. contents (output_txt fs') = contents (output_txt fs) @ text_of_lines lines
            \<and> list_all (prefix (py_str pystr (asset_name_of link (asset_names fa)) @ '' | '')) lines)
       \<and> (if asset_names fa = []
          then \<exists>s. asset_name_of link (asset_names fa) = JStr s \<and> CHR ''/'' \<notin> set s
                 \<and> (if CHR ''/'' \<in> set link then \<exists>pre. link = pre @ ''/'' @ s else s = link)
          else asset_name_of link (asset_names fa) = hd (asset_names fa))"
proof -
  let ?c = "make_ctx pystr pn pu link fa"
  have c: "c_asset_name ?c = asset_name_of link (asset_names fa)" "c_pystr ?c = pystr"
    by (simp_all add: make_ctx_def)
  from write_asset_cases[of ord fa pystr pn pu link fs] assms
  obtain unique where u: "unique_prices_of ord (found_prices fa) = Inr unique"
    by auto
  have fs': "fs' = fst (write_asset pystr ord pn pu (link, fa) fs)" using assms by simp
  have rows: "contents (output_csv fs') = contents (output_csv fs) @ asset_rows ?c (upgrade_from fa) unique"
    unfolding fs' by (rule write_asset_files(2)[OF u])
  have "asset_rows ?c (upgrade_from fa) unique \<noteq> []
      \<and> list_all (\<lambda>row. hd row = asset_name_of link (asset_names fa)) (asset_rows ?c (upgrade_from fa) unique)"
    using asset_rows_shape[of ?c "upgrade_from fa" unique] unfolding c by (simp add: list_all_iff)
  with rows have p1: "\<exists>new. contents (output_csv fs') = contents (output_csv fs) @ new \<and> new \<noteq> []
            \<and> list_all (\<lambda>row. hd row = asset_name_of link (asset_names fa)) new" by blast
  have "contents (output_txt fs') = contents (output_txt fs)
      @ text_of_lines (asset_lines ?c (upgrade_from fa) unique)"
    unfolding fs' by (rule write_asset_files(3)[OF u])
  moreover have "list_all (prefix (py_str pystr (asset_name_of link (asset_names fa)) @ '' | ''))
      (asset_lines ?c (upgrade_from fa) unique)"
    using asset_lines_prefix[of ?c "upgrade_from fa" unique] unfolding c .
  ultimately have p2: "\<exists>lines. contents (output_txt fs') = contents (output_txt fs) @ text_of_lines lines
            \<and> list_all (prefix (py_str pystr (asset_name_of link (asset_names fa)) @ '' | '')) lines"
    by blast
  have p3: "if asset_names fa = []
          then \<exists>s. asset_name_of link (asset_names fa) = JStr s \<and> CHR ''/'' \<notin> set s
                 \<and> (if CHR ''/'' \<in> set link then \<exists>pre. link = pre @ ''/'' @ s else s = link)
          else asset_name_of link (asset_names fa) = hd (asset_names fa)"
  proof (cases "asset_names fa = []")
    case True
    let ?s = "last (split_on (CHR ''/'') link)"
    from split_on_pieces[of "CHR ''/''" link]
    have s: "CHR ''/'' \<notin> set ?s"
      "CHR ''/'' \<in> set link \<Longrightarrow> \<exists>pre. link = pre @ CHR ''/'' # ?s"
      "CHR ''/'' \<notin> set link \<Longrightarrow> ?s = link"
      by simp_all
    show ?thesis
    proof (cases "CHR ''/'' \<in> set link")
      case m: True
      from s(2)[OF m] s(1) True m show ?thesis by (simp add: asset_name_of_def)
    next
      case m: False
      from s(3)[OF m] s(1) True m show ?thesis by (simp add: asset_name_of_def)
    qed
  next
    case False
    then show ?thesis by (simp add: asset_name_of_def)
  qed
  from p1 p2 p3 show ?thesis by (intro conjI)
qed

text \<open>
  The theorem at an asset with no collected name, and at one with two collected names.
\<close>

theorem asset_name_first_or_url_tail_witness:
  "(\<exists>new. contents (output_csv (mark_processed sky_link
        (save_csv_row sky_row (save_txt_line sky_line empty_files)))) = new \<and> new \<noteq> []
      \<and> list_all (\<lambda>row. hd row = JStr ''sky-1'') new)
   \<and> asset_name_of sky_link (asset_names two_upgrade_facts) = JStr ''Sky Master''"
proof -
  from asset_name_first_or_url_tail[OF ex_write_asset[of empty_files]]
  have "\<exists>new. contents (output_csv (mark_processed sky_link
        (save_csv_row sky_row (save_txt_line sky_line empty_files))))
          = contents (output_csv empty_files) @ new \<and> new \<noteq> []
      \<and> list_all (\<lambda>row. hd row = asset_name_of sky_link (asset_names no_facts)) new"
    by blast
  moreover have "asset_name_of sky_link (asset_names no_facts) = JStr ''sky-1''"
    using ex_asset_name by (simp add: no_facts_def)
  moreover from asset_name_first_or_url_tail[OF ex_two_upgrades(1)]
  have "asset_name_of sky_link (asset_names two_upgrade_facts) = hd (asset_names two_upgrade_facts)"
    by (simp add: two_upgrade_facts_def)
  ultimately show ?thesis
    by (simp add: empty_files_def contents_def two_upgrade_facts_def)
qed


end
